theory Spec2Isabelle
  imports Main
begin

section \<open>Strings\<close>

text \<open>
  Go strings are byte sequences; they are modelled as \<open>string\<close> (a list of bytes).
  The functions of package \<open>strings\<close> that the scanner calls are written out below.
  \<open>ToLower\<close> and \<open>TrimSpace\<close> are the ASCII parts of the library functions: bytes
  outside \<open>A\<close>..\<open>Z\<close> are left alone and only the six ASCII white-space bytes are
  trimmed (the library also folds and trims some multi-byte code points).
\<close>

definition HasPrefix :: "string \<Rightarrow> string \<Rightarrow> bool" where
  "HasPrefix s p = (take (length p) s = p)"

definition HasSuffix :: "string \<Rightarrow> string \<Rightarrow> bool" where
  "HasSuffix s p = (length p \<le> length s \<and> drop (length s - length p) s = p)"

fun Contains :: "string \<Rightarrow> string \<Rightarrow> bool" where
  "Contains [] substr = (substr = [])"
| "Contains (c # s) substr = (HasPrefix (c # s) substr \<or> Contains s substr)"

definition toLowerByte :: "char \<Rightarrow> char" where
  "toLowerByte c =
     (let n = (of_char c :: nat) in if 65 \<le> n \<and> n \<le> 90 then char_of (n + 32) else c)"

definition ToLower :: "string \<Rightarrow> string" where
  "ToLower s = map toLowerByte s"

definition isSpace :: "char \<Rightarrow> bool" where
  "isSpace c \<longleftrightarrow> c \<in> set [CHR 0x09, CHR 0x0A, CHR 0x0B, CHR 0x0C, CHR 0x0D, CHR '' '']"

definition TrimSpace :: "string \<Rightarrow> string" where
  "TrimSpace s = rev (dropWhile isSpace (rev (dropWhile isSpace s)))"

definition TrimPrefix :: "string \<Rightarrow> string \<Rightarrow> string" where
  "TrimPrefix s p = (if HasPrefix s p then drop (length p) s else s)"

text \<open>
  \<open>Index\<close> is the position of the first occurrence, \<open>-1\<close> when there is none.
\<close>

fun Index :: "string \<Rightarrow> string \<Rightarrow> int" where
  "Index [] substr = (if substr = [] then 0 else -1)"
| "Index (c # s) substr =
     (if HasPrefix (c # s) substr then 0
      else (let i = Index s substr in if i < 0 then -1 else i + 1))"

text \<open>
  \<open>Split\<close> and \<open>SplitN\<close> with \<open>n = 2\<close>, for a separator of one byte (the scanner
  splits on \<open>","\<close> and \<open>":"\<close> only).
\<close>

fun Split :: "string \<Rightarrow> char \<Rightarrow> string list" where
  "Split [] sep = [[]]"
| "Split (c # s) sep =
     (if c = sep then [] # Split s sep
      else (case Split s sep of [] \<Rightarrow> [[c]] | p # ps \<Rightarrow> (c # p) # ps))"

definition SplitN2 :: "string \<Rightarrow> char \<Rightarrow> string list" where
  "SplitN2 s sep =
     (if sep \<in> set s then [takeWhile (\<lambda>c. c \<noteq> sep) s, tl (dropWhile (\<lambda>c. c \<noteq> sep) s)]
      else [s])"

text \<open>
  \<open>Replace s old new 1\<close>: the first occurrence of \<open>old\<close> in \<open>s\<close> replaced by
  \<open>new\<close>.
\<close>

fun ReplaceFirst :: "string \<Rightarrow> string \<Rightarrow> string \<Rightarrow> string" where
  "ReplaceFirst [] old new = (if old = [] then new else [])"
| "ReplaceFirst (c # s) old new =
     (if HasPrefix (c # s) old then new @ drop (length old) (c # s)
      else c # ReplaceFirst s old new)"

section \<open>Probe responses\<close>

text \<open>
  \<open>codes.Code\<close>: the seventeen named status codes of gRPC, and \<open>OtherCode\<close> for a
  number outside that range.
\<close>

datatype code =
    OK | Canceled | Unknown | InvalidArgument | DeadlineExceeded | NotFound
  | AlreadyExists | PermissionDenied | ResourceExhausted | FailedPrecondition
  | Aborted | OutOfRange | Unimplemented | Internal | Unavailable | DataLoss
  | Unauthenticated | OtherCode nat

text \<open>
  The \<open>error\<close> value returned by \<open>conn.Invoke\<close>: \<open>NoError\<close> is \<open>nil\<close>,
  \<open>StatusError c m\<close> is an error for which \<open>status.FromError\<close> answers \<open>ok = true\<close>
  with code \<open>c\<close> and message \<open>m\<close>, and \<open>PlainError e\<close> is any other error, with
  \<open>e\<close> its \<open>Error()\<close> text.
\<close>

datatype rpcError = NoError | StatusError code string | PlainError string

subsection \<open>The method oracle of the scanner: \<open>checkService\<close> and \<open>checkMethod\<close>\<close>

text \<open>
  Both functions invoke \<open>/service/method\<close> on the connection and classify the error
  that comes back; the model takes that error as its argument.
\<close>

fun checkService :: "rpcError \<Rightarrow> bool" where
  "checkService NoError = True"
| "checkService (PlainError e) = False"
| "checkService (StatusError c m) =
     (if c = Unimplemented \<and> Contains (ToLower m) ''unknown service'' then False
      else if c = Unimplemented \<and> Contains (ToLower m) ''unknown method'' then True
      else if c = InvalidArgument \<or> c = FailedPrecondition \<or> c = Unauthenticated
              \<or> c = PermissionDenied \<or> c = Internal then True
      else False)"

fun checkMethod :: "rpcError \<Rightarrow> bool" where
  "checkMethod NoError = True"
| "checkMethod (PlainError e) = False"
| "checkMethod (StatusError c m) =
     (if c = InvalidArgument \<or> c = FailedPrecondition \<or> c = Unauthenticated
         \<or> c = PermissionDenied \<or> c = Internal then True
      else False)"

subsection \<open>The transport probe of the scanner: \<open>detectServiceType\<close>\<close>

text \<open>The argument is the error of the call to \<open>/grpc.health.v1.Health/Check\<close>.\<close>

fun detectServiceType :: "rpcError \<Rightarrow> bool \<times> string" where
  "detectServiceType NoError = (True, ''gRPC service with health check'')"
| "detectServiceType (PlainError errStr) =
     (if Contains errStr ''HTTP'' then (False, ''HTTP/REST service'')
      else if Contains errStr ''connection refused''
        then (False, ''No service listening on this port'')
      else (False, ''Unknown service type''))"
| "detectServiceType (StatusError c m) =
     (if c = Unimplemented then
        (if Contains m ''unknown service''
         then (True, ''gRPC service (health check not implemented)'')
         else (True, ''gRPC service''))
      else if c = Unavailable then (False, ''Service unavailable'')
      else if c = Internal then (True, ''gRPC service'')
      else (True, ''gRPC service''))"

subsection \<open>The multi-target detector: \<open>checkGRPCService\<close>\<close>

text \<open>
  \<open>DetectResult\<close>, with the fields \<open>Target\<close> and \<open>Timestamp\<close> written \<open>DTarget\<close> and
  \<open>DTimestamp\<close> (the scan result below has fields of the same names). Times are
  natural numbers of clock ticks. The zero value of the struct has \<open>IsGRPC = false\<close>,
  \<open>Error = ""\<close> and \<open>Latency = 0\<close>.
\<close>

record DetectResult =
  DTarget :: string
  IsGRPC :: bool
  Error :: string
  Latency :: nat
  DTimestamp :: nat

datatype connState = Idle | Connecting | Ready | TransientFailure | Shutdown

fun connStateString :: "connState \<Rightarrow> string" where
  "connStateString Idle = ''IDLE''"
| "connStateString Connecting = ''CONNECTING''"
| "connStateString Ready = ''READY''"
| "connStateString TransientFailure = ''TRANSIENT_FAILURE''"
| "connStateString Shutdown = ''SHUTDOWN''"

text \<open>
  The outcome of \<open>grpc.DialContext\<close>: an error, or a connection, of which the
  function reads the state. The errors of \<open>grpc.DialContext\<close> have a text that is not
  empty (with \<open>WithBlock\<close>, the context's "context deadline exceeded" or "context
  canceled"; otherwise a message of the dialer): \<open>DialError c cs\<close> is the error whose
  \<open>Error()\<close> text is \<open>c # cs\<close>.
\<close>

datatype dialResult = DialError char string | DialOk connState

definition dialAddress :: "string \<Rightarrow> string" where
  "dialAddress target = (if \<not> Contains target '':'' then target @ '':443'' else target)"

text \<open>
  \<open>checkGRPCService target timeout\<close> in an environment: \<open>now\<close> is the clock when the
  result is created, \<open>dial\<close> answers the dial of an address, \<open>invoke\<close> is the error
  of the health-check call, and \<open>since\<close> is what \<open>time.Since(startTime)\<close> reads on
  the path that returns.
\<close>

definition checkGRPCService ::
  "string \<Rightarrow> nat \<Rightarrow> (string \<Rightarrow> dialResult) \<Rightarrow> rpcError \<Rightarrow> nat \<Rightarrow> DetectResult" where
  "checkGRPCService target now dial invoke since =
     (let result = \<lparr>DTarget = target, IsGRPC = False, Error = [], Latency = 0,
                     DTimestamp = now\<rparr>
      in case dial (dialAddress target) of
           DialError c cs \<Rightarrow> result\<lparr>Error := c # cs, Latency := since\<rparr>
         | DialOk state \<Rightarrow>
             if state = TransientFailure \<or> state = Shutdown
             then result\<lparr>Error := ''Connection failed: '' @ connStateString state,
                         Latency := since\<rparr>
             else (case invoke of
                     NoError \<Rightarrow> result\<lparr>IsGRPC := True, Latency := since\<rparr>
                   | StatusError c m \<Rightarrow> result\<lparr>IsGRPC := True, Latency := since\<rparr>
                   | PlainError e \<Rightarrow>
                       result\<lparr>Error := ''Non-gRPC response'', Latency := since\<rparr>))"

section \<open>Scan results\<close>

text \<open>
  The repository holds two scanner programs, each with its own \<open>ScanResult\<close> struct:
  the scanner built around \<open>Scanner.Run\<close> (with \<open>checkService\<close>, \<open>addService\<close>
  and the wordlist search), and an earlier stand-alone scanner whose \<open>main\<close> calls
  \<open>checkStandardServices\<close>, \<open>discoverServicesViaReflection\<close> and
  \<open>bruteForceServices\<close>. The record \<open>ScanResult\<close> has the four fields the two
  structs share; \<open>ScannerResult\<close> adds the fields of the first program and
  \<open>StandaloneResult\<close> those of the second. \<open>MethodsFound\<close> is a Go map from
  service to the list of its methods.
\<close>

record ScanResult =
  Target :: string
  AvailableServices :: "string list"
  MethodsFound :: "string \<rightharpoonup> string list"
  ReflectionEnabled :: bool

record ScannerResult = ScanResult +
  ScanMode :: string
  Timestamp :: string

record StandaloneResult = ScanResult +
  HealthStatus :: "string \<rightharpoonup> string"
  Errors :: "string \<rightharpoonup> string"
  Vulnerabilities :: "string list"

text \<open>Reading a Go map of slices at a key it does not hold gives the nil slice.\<close>

definition methodsOf :: "(string \<rightharpoonup> string list) \<Rightarrow> string \<Rightarrow> string list" where
  "methodsOf m service = (case m service of None \<Rightarrow> [] | Some ms \<Rightarrow> ms)"

subsection \<open>The scanner's updates, each under the result mutex\<close>

definition addService ::
  "string \<Rightarrow> string \<Rightarrow> 'a ScanResult_scheme \<Rightarrow> 'a ScanResult_scheme" where
  "addService service source r =
     (if service \<in> set (AvailableServices r) then r
      else r\<lparr>AvailableServices := AvailableServices r @ [service]\<rparr>)"

text \<open>
  \<open>addMethod\<close> first stores the empty list at a key without a list, then returns when
  the method is already in the list, and appends it otherwise. A key without a list
  never holds the method, so the early return leaves the map as it was.
\<close>

definition addMethod ::
  "string \<Rightarrow> string \<Rightarrow> 'a ScanResult_scheme \<Rightarrow> 'a ScanResult_scheme" where
  "addMethod service method r =
     (let existing = methodsOf (MethodsFound r) service in
      if method \<in> set existing then r
      else r\<lparr>MethodsFound := (MethodsFound r)(service \<mapsto> existing @ [method])\<rparr>)"

subsection \<open>The stand-alone scanner's helpers and updates\<close>

fun contains :: "string list \<Rightarrow> string \<Rightarrow> bool" where
  "contains [] item = False"
| "contains (s # slice) item = (if s = item then True else contains slice item)"

text \<open>
  \<open>uniqueStrings\<close>: the loop over \<open>input\<close> with its map \<open>seen\<close> (a missing key
  reads false) and the slice \<open>result\<close>.
\<close>

fun uniqueStrings_loop :: "string list \<Rightarrow> (string \<Rightarrow> bool) \<Rightarrow> string list \<Rightarrow> string list" where
  "uniqueStrings_loop [] seen result = result"
| "uniqueStrings_loop (item # input) seen result =
     (if \<not> seen item then uniqueStrings_loop input (seen(item := True)) (result @ [item])
      else uniqueStrings_loop input seen result)"

definition uniqueStrings :: "string list \<Rightarrow> string list" where
  "uniqueStrings input = uniqueStrings_loop input (\<lambda>k. False) []"

text \<open>
  The block of \<open>checkStandardServices\<close> that runs under the mutex when
  \<open>serviceFound\<close> holds.
\<close>

definition standardServiceFound ::
  "string \<Rightarrow> string list \<Rightarrow> 'a ScanResult_scheme \<Rightarrow> 'a ScanResult_scheme" where
  "standardServiceFound servicePath foundMethods r =
     (let r1 = (if \<not> contains (AvailableServices r) servicePath
                then r\<lparr>AvailableServices := AvailableServices r @ [servicePath]\<rparr> else r)
      in if length foundMethods > 0
         then r1\<lparr>MethodsFound := (MethodsFound r1)(servicePath \<mapsto>
                   uniqueStrings (methodsOf (MethodsFound r1) servicePath @ foundMethods))\<rparr>
         else r1)"

text \<open>
  The block of a \<open>bruteForceServices\<close> worker that runs under the mutex when
  \<open>serviceFound && len(methodsFound) > 0\<close>.
\<close>

definition bruteForceServiceFound ::
  "string \<Rightarrow> string list \<Rightarrow> 'a ScanResult_scheme \<Rightarrow> 'a ScanResult_scheme" where
  "bruteForceServiceFound servicePath methodsFound r =
     (let r1 = (if \<not> contains (AvailableServices r) servicePath
                then r\<lparr>AvailableServices := AvailableServices r @ [servicePath]\<rparr> else r)
      in r1\<lparr>MethodsFound := (MethodsFound r1)(servicePath \<mapsto>
                uniqueStrings (methodsOf (MethodsFound r1) servicePath @ methodsFound))\<rparr>)"

text \<open>The block of \<open>checkHealthService\<close> that runs when the overall check succeeds.\<close>

definition healthServiceFound :: "'a ScanResult_scheme \<Rightarrow> 'a ScanResult_scheme" where
  "healthServiceFound r =
     (let r1 = (if \<not> contains (AvailableServices r) ''grpc.health.v1.Health''
                then r\<lparr>AvailableServices := AvailableServices r @ [''grpc.health.v1.Health'']\<rparr>
                else r);
          existing = methodsOf (MethodsFound r1) ''grpc.health.v1.Health''
      in if \<not> contains existing ''Check''
         then r1\<lparr>MethodsFound := (MethodsFound r1)(''grpc.health.v1.Health'' \<mapsto> existing @ [''Check''])\<rparr>
         else r1\<lparr>MethodsFound := (MethodsFound r1)(''grpc.health.v1.Health'' \<mapsto> existing)\<rparr>)"

text \<open>The loop of \<open>discoverServicesViaReflection\<close> over the discovered names.\<close>

fun reflectionServicesFound ::
  "string list \<Rightarrow> 'a ScanResult_scheme \<Rightarrow> 'a ScanResult_scheme" where
  "reflectionServicesFound [] r = r"
| "reflectionServicesFound (serviceName # rest) r =
     reflectionServicesFound rest
       (if \<not> contains (AvailableServices r) serviceName
        then r\<lparr>AvailableServices := AvailableServices r @ [serviceName]\<rparr> else r)"

subsection \<open>Sequences of updates\<close>

text \<open>
  Every write to \<open>AvailableServices\<close> and \<open>MethodsFound\<close> in the two programs is one
  of the updates above. A scan applies them one at a time (the mutex makes each atomic),
  in an order that the scheduling of the workers decides.
\<close>

datatype update =
    AddService string string
  | AddMethod string string
  | StandardServiceFound string "string list"
  | BruteForceServiceFound string "string list"
  | HealthServiceFound
  | ReflectionServicesFound "string list"

fun applyUpdate :: "update \<Rightarrow> 'a ScanResult_scheme \<Rightarrow> 'a ScanResult_scheme" where
  "applyUpdate (AddService service source) r = addService service source r"
| "applyUpdate (AddMethod service method) r = addMethod service method r"
| "applyUpdate (StandardServiceFound servicePath foundMethods) r =
     standardServiceFound servicePath foundMethods r"
| "applyUpdate (BruteForceServiceFound servicePath methodsFound) r =
     bruteForceServiceFound servicePath methodsFound r"
| "applyUpdate HealthServiceFound r = healthServiceFound r"
| "applyUpdate (ReflectionServicesFound names) r = reflectionServicesFound names r"

fun applyUpdates :: "update list \<Rightarrow> 'a ScanResult_scheme \<Rightarrow> 'a ScanResult_scheme" where
  "applyUpdates [] r = r"
| "applyUpdates (u # us) r = applyUpdates us (applyUpdate u r)"

text \<open>The result a scan starts from: no service, an empty map.\<close>

definition newScannerResult :: "string \<Rightarrow> string \<Rightarrow> ScannerResult" where
  "newScannerResult target now =
     \<lparr>Target = target, AvailableServices = [], MethodsFound = Map.empty,
      ReflectionEnabled = False, ScanMode = [], Timestamp = now\<rparr>"

definition newStandaloneResult :: "string \<Rightarrow> StandaloneResult" where
  "newStandaloneResult target =
     \<lparr>Target = target, AvailableServices = [], MethodsFound = Map.empty,
      ReflectionEnabled = False, HealthStatus = Map.empty, Errors = Map.empty,
      Vulnerabilities = []\<rparr>"

text \<open>The two invariants of a result.\<close>

definition noDuplicates :: "'a ScanResult_scheme \<Rightarrow> bool" where
  "noDuplicates r \<longleftrightarrow>
     distinct (AvailableServices r) \<and> (\<forall>s ms. MethodsFound r s = Some ms \<longrightarrow> distinct ms)"

definition referentialIntegrity :: "'a ScanResult_scheme \<Rightarrow> bool" where
  "referentialIntegrity r \<longleftrightarrow> dom (MethodsFound r) \<subseteq> set (AvailableServices r)"

section \<open>The reflection probe\<close>

text \<open>
  What the reflection stream does once it is open: the send of the \<open>list_services\<close>
  request fails, the receive fails, the response is not a list of services, or it is
  one, with the names it carries. The stream itself is \<open>None\<close> when
  \<open>ServerReflectionInfo\<close> returned an error (in \<open>discoverServicesViaReflection\<close>:
  when the stream is nil).
\<close>

datatype stream = SendError | RecvError rpcError | OtherResponse | ListServicesResponse "string list"

text \<open>The scanner's \<open>tryReflection\<close>.\<close>

fun tryReflection ::
  "stream option \<Rightarrow> 'a ScanResult_scheme \<Rightarrow> bool \<times> 'a ScanResult_scheme" where
  "tryReflection None r = (False, r)"
| "tryReflection (Some SendError) r = (False, r)"
| "tryReflection (Some (RecvError e)) r = (False, r)"
| "tryReflection (Some OtherResponse) r = (False, r)"
| "tryReflection (Some (ListServicesResponse services)) r =
     (True, applyUpdates (map (\<lambda>service. AddService service ''reflection'') services)
              (r\<lparr>ReflectionEnabled := True\<rparr>))"

text \<open>
  The stand-alone scanner's \<open>discoverServicesViaReflection\<close>. The requests for the
  file descriptors that follow the list leave the result alone and are not modelled.
\<close>

fun discoverServicesViaReflection ::
  "stream option \<Rightarrow> 'a ScanResult_scheme \<Rightarrow> bool \<times> 'a ScanResult_scheme" where
  "discoverServicesViaReflection None r = (False, r)"
| "discoverServicesViaReflection (Some SendError) r = (False, r)"
| "discoverServicesViaReflection (Some (RecvError e)) r = (False, r)"
| "discoverServicesViaReflection (Some OtherResponse) r = (False, r)"
| "discoverServicesViaReflection (Some (ListServicesResponse discoveredServices)) r =
     (length discoveredServices > 0,
      if length discoveredServices > 0 then reflectionServicesFound discoveredServices r
      else r)"

text \<open>The reflection step of the stand-alone scanner's \<open>main\<close>.\<close>

definition mainReflection ::
  "stream option \<Rightarrow> 'a ScanResult_scheme \<Rightarrow> 'a ScanResult_scheme" where
  "mainReflection reflectionStream r =
     (case reflectionStream of
        None \<Rightarrow> r\<lparr>ReflectionEnabled := False\<rparr>
      | Some st \<Rightarrow>
          (case discoverServicesViaReflection (Some st) r of
             (actuallyWorked, r1) \<Rightarrow> r1\<lparr>ReflectionEnabled := actuallyWorked\<rparr>))"

section \<open>The wordlist\<close>

text \<open>
  \<open>ServicePattern\<close> and \<open>WordlistEntry\<close> are two structs with the same two fields.
  A nil \<open>Methods\<close> is the empty list.
\<close>

record ServicePattern =
  Service :: string
  Methods :: "string list"

type_synonym WordlistEntry = ServicePattern

text \<open>
  The file as the scanner reads it: the open fails, or \<open>bufio.Scanner\<close> yields
  lines and then stops, with an error or without.
\<close>

datatype wordlistFile = CannotOpen string | Lines "string list" "string option"

text \<open>One turn of the loop of \<open>loadEnhancedWordlist\<close>, on the text of a line.\<close>

definition wordlistLine ::
  "string \<Rightarrow> WordlistEntry list \<times> string list \<Rightarrow> WordlistEntry list \<times> string list" where
  "wordlistLine text acc =
     (case acc of (entries, globalMethods) \<Rightarrow>
        let line = TrimSpace text in
        if line = [] \<or> HasPrefix line ''#'' \<or> HasPrefix line ''//'' then (entries, globalMethods)
        else if HasPrefix line ''*'' then (entries, globalMethods @ [TrimPrefix line ''*''])
        else if Contains line '':'' then
          (let parts = SplitN2 line CHR '':'';
               service = TrimSpace (parts ! 0);
               methodList = Split (parts ! 1) CHR '','';
               methods = filter (\<lambda>method. method \<noteq> []) (map TrimSpace methodList)
           in (entries @ [\<lparr>Service = service, Methods = methods\<rparr>], globalMethods))
        else (entries @ [\<lparr>Service = line, Methods = []\<rparr>], globalMethods))"

fun wordlistLines ::
  "string list \<Rightarrow> WordlistEntry list \<times> string list \<Rightarrow> WordlistEntry list \<times> string list" where
  "wordlistLines [] acc = acc"
| "wordlistLines (text # rest) acc = wordlistLines rest (wordlistLine text acc)"

fun loadEnhancedWordlist :: "wordlistFile \<Rightarrow> string + WordlistEntry list \<times> string list" where
  "loadEnhancedWordlist (CannotOpen e) = Inl (''failed to open wordlist: '' @ e)"
| "loadEnhancedWordlist (Lines texts (Some e)) = Inl (''error reading wordlist: '' @ e)"
| "loadEnhancedWordlist (Lines texts None) = Inr (wordlistLines texts ([], []))"

text \<open>
  One turn of the loop of \<open>loadServicePathsFromFile\<close>, the loader of the stand-alone
  scanner, which removes a comment that follows an entry.
\<close>

definition servicePathLine :: "string \<Rightarrow> string list \<Rightarrow> string list" where
  "servicePathLine text services =
     (let line = TrimSpace text in
      if line = [] \<or> HasPrefix line ''#'' then services
      else (let idx = Index line ''#'';
                line1 = (if idx > 0 then TrimSpace (take (nat idx) line) else line)
            in services @ [line1]))"

subsection \<open>The default methods of \<open>wordlistBruteForce\<close>\<close>

definition builtinDefaultMethods :: "string list" where
  "builtinDefaultMethods =
     [''Get'', ''List'', ''Create'', ''Update'', ''Delete'',
      ''Find'', ''Search'', ''Query'', ''Check'', ''Ping'']"

text \<open>
  \<open>methodSet\<close> after the loop that stores every method of the list in the map. The
  statement \<open>for m := range methodSet\<close> then visits the keys of the map in an order the
  Go runtime chooses and that the language leaves unspecified: \<open>mapRange m keys\<close> says
  that \<open>keys\<close> is such an order. With global methods, the default methods are the keys
  in the order of that visit; the model takes the order as an argument.
\<close>

definition methodSet :: "string list \<Rightarrow> (string \<rightharpoonup> bool)" where
  "methodSet methods = foldl (\<lambda>set m. set(m \<mapsto> True)) Map.empty methods"

definition mapRange :: "('k \<rightharpoonup> 'v) \<Rightarrow> 'k list \<Rightarrow> bool" where
  "mapRange m keys \<longleftrightarrow> distinct keys \<and> set keys = dom m"

definition wordlistDefaultMethods :: "string list \<Rightarrow> string list \<Rightarrow> string list" where
  "wordlistDefaultMethods globalMethods rangeOrder =
     (if length globalMethods > 0 then foldl (\<lambda>defaultMethods m. defaultMethods @ [m]) [] rangeOrder
      else builtinDefaultMethods)"

section \<open>The scan of one target\<close>

text \<open>
  The connection is a server whose answer to \<open>Invoke\<close> may depend on everything it
  was asked before: \<open>call st path\<close> is the error of the call to \<open>path\<close> in server
  state \<open>st\<close>, with the state after the call.
\<close>

type_synonym 's conn = "'s \<Rightarrow> string \<Rightarrow> rpcError \<times> 's"

definition fullMethod :: "string \<Rightarrow> string \<Rightarrow> string" where
  "fullMethod service method = ''/'' @ service @ ''/'' @ method"

text \<open>
  The functions of the scan touch the result through \<open>addService\<close> and \<open>addMethod\<close>
  only and never read it, so each is modelled by the list of updates it makes, in order.
  The loop \<open>for _, method := range methods\<close> with \<open>checkMethod\<close> and \<open>addMethod\<close>:
\<close>

fun checkMethods :: "'s conn \<Rightarrow> string \<Rightarrow> string list \<Rightarrow> 's \<Rightarrow> update list \<times> 's" where
  "checkMethods call service [] st = ([], st)"
| "checkMethods call service (method # methods) st =
     (case call st (fullMethod service method) of (err, st1) \<Rightarrow>
        (case checkMethods call service methods st1 of (us, st2) \<Rightarrow>
           ((if checkMethod err then [AddMethod service method] else []) @ us, st2)))"

definition commonPatterns :: "ServicePattern list" where
  "commonPatterns =
     [\<lparr>Service = ''grpc.health.v1.Health'', Methods = [''Check'', ''Watch'']\<rparr>,
      \<lparr>Service = ''grpc.reflection.v1alpha.ServerReflection'', Methods = [''ServerReflectionInfo'']\<rparr>,
      \<lparr>Service = ''grpc.reflection.v1.ServerReflection'', Methods = [''ServerReflectionInfo'']\<rparr>,
      \<lparr>Service = ''helloworld.Greeter'', Methods = [''SayHello'']\<rparr>,
      \<lparr>Service = ''ping.PingService'', Methods = [''Ping'', ''Check'', ''Health'']\<rparr>,
      \<lparr>Service = ''echo.EchoService'', Methods = [''Echo'', ''Stream'']\<rparr>,
      \<lparr>Service = ''user'',
        Methods = [''Get'', ''List'', ''Create'', ''Update'', ''Delete'', ''Login'', ''Logout'']\<rparr>,
      \<lparr>Service = ''auth'',
        Methods = [''Login'', ''Logout'', ''Verify'', ''Refresh'', ''Authenticate'']\<rparr>,
      \<lparr>Service = ''product'',
        Methods = [''Get'', ''List'', ''Create'', ''Update'', ''Delete'', ''Search'']\<rparr>,
      \<lparr>Service = ''order'',
        Methods = [''Get'', ''List'', ''Create'', ''Update'', ''Delete'', ''Process'']\<rparr>]"

text \<open>
  The probe of one pattern, as in the loop of \<open>checkStandardServices\<close> and in the
  worker of \<open>smartBruteForce\<close>: \<open>checkService\<close> with \<open>Methods[0]\<close>, then
  \<open>addService\<close> and the loop over the methods. \<open>None\<close> is the panic of
  \<open>Methods[0]\<close> on a pattern without methods.
\<close>

definition probePattern ::
  "'s conn \<Rightarrow> string \<Rightarrow> ServicePattern \<Rightarrow> 's \<Rightarrow> (update list \<times> 's) option" where
  "probePattern call source p st =
     (case Methods p of
        [] \<Rightarrow> None
      | method0 # _ \<Rightarrow>
          (case call st (fullMethod (Service p) method0) of (err, st1) \<Rightarrow>
             if checkService err
             then (case checkMethods call (Service p) (Methods p) st1 of (us, st2) \<Rightarrow>
                     Some (AddService (Service p) source # us, st2))
             else Some ([], st1)))"

fun probePatterns ::
  "'s conn \<Rightarrow> string \<Rightarrow> ServicePattern list \<Rightarrow> 's \<Rightarrow> (update list \<times> 's) option" where
  "probePatterns call source [] st = Some ([], st)"
| "probePatterns call source (p # ps) st =
     (case probePattern call source p st of
        None \<Rightarrow> None
      | Some (us, st1) \<Rightarrow>
          (case probePatterns call source ps st1 of
             None \<Rightarrow> None
           | Some (us', st2) \<Rightarrow> Some (us @ us', st2)))"

text \<open>
  \<open>checkStandardServices\<close>: the health check through the health client, then the
  first three common patterns.
\<close>

definition checkStandardServices :: "'s conn \<Rightarrow> 's \<Rightarrow> (update list \<times> 's) option" where
  "checkStandardServices call st =
     (case call st ''/grpc.health.v1.Health/Check'' of (err, st1) \<Rightarrow>
        (case probePatterns call ''standard'' (take 3 commonPatterns) st1 of
           None \<Rightarrow> None
         | Some (us, st2) \<Rightarrow>
             Some ((if err = NoError
                    then [AddService ''grpc.health.v1.Health'' ''standard'',
                          AddMethod ''grpc.health.v1.Health'' ''Check'']
                    else []) @ us, st2)))"

subsection \<open>The worker of \<open>wordlistBruteForce\<close>\<close>

definition entryPatterns :: "string \<Rightarrow> string list" where
  "entryPatterns service =
     [service] @
     (if \<not> Contains service ''.'' \<and> \<not> HasSuffix service ''Service''
      then [service @ ''Service'',
            ToLower service @ ''.'' @ service @ ''Service'',
            ''api.'' @ service,
            ToLower service @ ''.v1.'' @ service @ ''Service'']
      else [])"

text \<open>
  The loop over the patterns of an entry: the first pattern that \<open>checkService\<close>
  accepts is added with its confirmed methods, and the loop stops there.
\<close>

fun tryPatterns :: "'s conn \<Rightarrow> string list \<Rightarrow> string list \<Rightarrow> 's \<Rightarrow> update list \<times> 's" where
  "tryPatterns call methodsToTry [] st = ([], st)"
| "tryPatterns call methodsToTry (pattern # patterns) st =
     (case methodsToTry of
        [] \<Rightarrow> tryPatterns call methodsToTry patterns st
      | method0 # _ \<Rightarrow>
          (case call st (fullMethod pattern method0) of (err, st1) \<Rightarrow>
             if checkService err
             then (case checkMethods call pattern methodsToTry st1 of (us, st2) \<Rightarrow>
                     (AddService pattern ''wordlist'' # us, st2))
             else tryPatterns call methodsToTry patterns st1))"

definition wordlistWorker ::
  "'s conn \<Rightarrow> string list \<Rightarrow> WordlistEntry \<Rightarrow> 's \<Rightarrow> update list" where
  "wordlistWorker call defaultMethods e st =
     (let methodsToTry = (if length (Methods e) = 0 then defaultMethods else Methods e)
      in fst (tryPatterns call methodsToTry (entryPatterns (Service e)) st))"

subsection \<open>The patterns of \<open>smartBruteForce\<close>\<close>

definition generateMethodsForService :: "string \<Rightarrow> string list \<Rightarrow> string list" where
  "generateMethodsForService serviceName baseMethods =
     baseMethods @
     (let n = ToLower serviceName in
      if n = ''user'' \<or> n = ''account''
        then [''Login'', ''Logout'', ''Register'', ''Authenticate'', ''GetProfile'']
      else if n = ''auth''
        then [''Login'', ''Logout'', ''Verify'', ''Refresh'', ''ValidateToken'']
      else if n = ''file'' \<or> n = ''storage''
        then [''Upload'', ''Download'', ''Delete'', ''GetMetadata'']
      else if n = ''payment''
        then [''Process'', ''Refund'', ''GetStatus'', ''Capture'']
      else []) @
     [''Get'' @ serviceName]"

fun deduplicatePatterns_loop ::
  "ServicePattern list \<Rightarrow> (string \<Rightarrow> bool) \<Rightarrow> ServicePattern list \<Rightarrow> ServicePattern list" where
  "deduplicatePatterns_loop [] seen result = result"
| "deduplicatePatterns_loop (p # patterns) seen result =
     (if \<not> seen (Service p)
      then deduplicatePatterns_loop patterns (seen(Service p := True)) (result @ [p])
      else deduplicatePatterns_loop patterns seen result)"

definition deduplicatePatterns :: "ServicePattern list \<Rightarrow> ServicePattern list" where
  "deduplicatePatterns patterns = deduplicatePatterns_loop patterns (\<lambda>k. False) []"

definition serviceNames :: "string list" where
  "serviceNames =
     [''User'', ''Auth'', ''Account'', ''Profile'',
      ''Product'', ''Order'', ''Payment'', ''Cart'',
      ''File'', ''Storage'', ''Media'', ''Document'',
      ''Notification'', ''Email'', ''Message'',
      ''Search'', ''Query'', ''Config'', ''Settings'',
      ''Admin'', ''Management'', ''System'']"

definition commonMethods :: "string list" where
  "commonMethods =
     [''Get'', ''List'', ''Create'', ''Update'', ''Delete'',
      ''Find'', ''Search'', ''Count'', ''Exists'',
      ''Validate'', ''Check'', ''Verify'']"

definition namePatterns :: "string \<Rightarrow> ServicePattern list" where
  "namePatterns name =
     [\<lparr>Service = ToLower name, Methods = generateMethodsForService name commonMethods\<rparr>,
      \<lparr>Service = name @ ''Service'', Methods = generateMethodsForService name commonMethods\<rparr>,
      \<lparr>Service = ToLower name @ ''.'' @ name @ ''Service'',
        Methods = generateMethodsForService name commonMethods\<rparr>,
      \<lparr>Service = ''api.'' @ name, Methods = generateMethodsForService name commonMethods\<rparr>,
      \<lparr>Service = ToLower name @ ''.v1.'' @ name @ ''Service'',
        Methods = generateMethodsForService name commonMethods\<rparr>]"

definition generateSmartPatterns :: "ServicePattern list" where
  "generateSmartPatterns =
     deduplicatePatterns (commonPatterns @ concat (map namePatterns serviceNames))"

subsection \<open>Workers in parallel\<close>

text \<open>
  The workers of a search run as goroutines and their updates take the mutex in an order
  the Go scheduler decides. \<open>interleave sched traces\<close> merges the update lists of the
  workers: \<open>sched\<close> names, step by step, the worker whose next update comes next (a step
  that names no worker, or one that has finished, is skipped); the updates left when
  \<open>sched\<close> ends follow worker by worker.
\<close>

fun interleave :: "nat list \<Rightarrow> 'a list list \<Rightarrow> 'a list" where
  "interleave [] traces = concat traces"
| "interleave (i # sched) traces =
     (if i < length traces
      then (case traces ! i of
              [] \<Rightarrow> interleave sched traces
            | u # rest \<Rightarrow> u # interleave sched (traces[i := rest]))
      else interleave sched traces)"

text \<open>
  The \<open>Scanner\<close> struct (without the connection and the mutex), and the environment of
  a scan: the outcome of the dial and the states the connection goes through before the
  wait for it ends, the server, the reflection stream, the wordlist file, the order in
  which \<open>range\<close> visits \<open>methodSet\<close>, the server state each worker meets, and the
  schedule of the workers' updates.
\<close>

record Scanner =
  target :: string
  timeout :: nat
  verbose :: bool
  wordlist :: string
  methodsList :: string
  threads :: int
  result :: ScannerResult

record 's environment =
  dialOutcome :: dialResult
  stateChanges :: "connState list"
  invoke :: "'s conn"
  server :: 's
  reflection :: "stream option"
  wordlistContent :: wordlistFile
  rangeOrder :: "string list"
  workerServer :: "nat \<Rightarrow> 's"
  schedule :: "nat list"

text \<open>
  A scan that does not complete: \<open>Run\<close> returns an error, a goroutine panics, or the
  program stops on a channel nobody reads.
\<close>

datatype scanError = Failed string | Panic string | Deadlock

fun waitForConnection :: "connState \<Rightarrow> connState list \<Rightarrow> bool" where
  "waitForConnection state [] =
     (if state = Ready \<or> state = Idle then True
      else if state = TransientFailure \<or> state = Shutdown then False
      else (state = Ready \<or> state = Idle))"
| "waitForConnection state (next # changes) =
     (if state = Ready \<or> state = Idle then True
      else if state = TransientFailure \<or> state = Shutdown then False
      else waitForConnection next changes)"

text \<open>
  \<open>make(chan struct{}, threads)\<close> panics on a negative size; with size zero the first
  send on the channel blocks for ever, since the only receive is in the worker that the
  send precedes.
\<close>

definition semaphore :: "int \<Rightarrow> nat \<Rightarrow> scanError option" where
  "semaphore n jobs =
     (if n < 0 then Some (Panic ''makechan: size out of range'')
      else if n = 0 \<and> jobs > 0 then Some Deadlock
      else None)"

definition wordlistBruteForce ::
  "Scanner \<Rightarrow> 's environment \<Rightarrow> ScannerResult \<Rightarrow> scanError + ScannerResult" where
  "wordlistBruteForce s env r =
     (case loadEnhancedWordlist (wordlistContent env) of
        Inl e \<Rightarrow> Inl (Failed e)
      | Inr (entries, globalMethods) \<Rightarrow>
          (let defaultMethods = wordlistDefaultMethods globalMethods (rangeOrder env) in
           case semaphore (threads s) (length entries) of
             Some e \<Rightarrow> Inl e
           | None \<Rightarrow>
               Inr (applyUpdates
                      (interleave (schedule env)
                         (map (\<lambda>(i, e). wordlistWorker (invoke env) defaultMethods e
                                           (workerServer env i))
                            (enumerate 0 entries)))
                      r)))"

definition smartBruteForce ::
  "Scanner \<Rightarrow> 's environment \<Rightarrow> ScannerResult \<Rightarrow> scanError + ScannerResult" where
  "smartBruteForce s env r =
     (let patterns = generateSmartPatterns in
      case semaphore (threads s) (length patterns) of
        Some e \<Rightarrow> Inl e
      | None \<Rightarrow>
          (case those (map (\<lambda>(i, p). probePattern (invoke env) ''bruteforce'' p
                                        (workerServer env i))
                         (enumerate 0 patterns)) of
             None \<Rightarrow> Inl (Panic ''index out of range'')
           | Some traces \<Rightarrow>
               Inr (applyUpdates (interleave (schedule env) (map fst traces)) r)))"

definition Run :: "Scanner \<Rightarrow> 's environment \<Rightarrow> scanError + ScannerResult" where
  "Run s env =
     (case dialOutcome env of
        DialError c cs \<Rightarrow> Inl (Failed (''failed to connect: '' @ c # cs))
      | DialOk state \<Rightarrow>
          if \<not> waitForConnection state (stateChanges env)
          then Inl (Failed ''connection failed'')
          else (case invoke env (server env) ''/grpc.health.v1.Health/Check'' of
            (err, st1) \<Rightarrow>
              (case detectServiceType err of (isGRPC, serviceType) \<Rightarrow>
                if \<not> isGRPC then Inl (Failed ''not a gRPC service'')
                else (case tryReflection (reflection env) (result s) of (enabled, r1) \<Rightarrow>
                  (let r2 = (if enabled then r1\<lparr>ScanMode := ''reflection''\<rparr> else r1) in
                   case checkStandardServices (invoke env) st1 of
                     None \<Rightarrow> Inl (Panic ''index out of range'')
                   | Some (us, st2) \<Rightarrow>
                       (let r3 = applyUpdates us r2 in
                        if \<not> ReflectionEnabled r3 \<or> length (AvailableServices r3) \<le> 1
                        then (if wordlist s \<noteq> []
                              then (case wordlistBruteForce s env (r3\<lparr>ScanMode := ''wordlist''\<rparr>) of
                                      Inl (Failed e) \<Rightarrow>
                                        Inl (Failed (''wordlist brute force failed: '' @ e))
                                    | Inl e \<Rightarrow> Inl e
                                    | Inr r4 \<Rightarrow> Inr r4)
                              else smartBruteForce s env (r3\<lparr>ScanMode := ''bruteforce''\<rparr>))
                        else if ScanMode r3 = [] then Inr (r3\<lparr>ScanMode := ''standard''\<rparr>)
                        else Inr r3))))))"

text \<open>The scanner that \<open>main\<close> builds for a scan.\<close>

definition newScanner ::
  "string \<Rightarrow> nat \<Rightarrow> bool \<Rightarrow> string \<Rightarrow> string \<Rightarrow> int \<Rightarrow> string \<Rightarrow> Scanner" where
  "newScanner tgt tmo v wl ml thr now =
     \<lparr>target = tgt, timeout = tmo, verbose = v, wordlist = wl, methodsList = ml,
      threads = thr, result = newScannerResult tgt now\<rparr>"

text \<open>
  An update list is service-first over a set of services when each \<open>addMethod\<close> in it
  names a service of the set or one that an earlier update of the list adds.
\<close>

fun serviceFirst :: "string set \<Rightarrow> update list \<Rightarrow> bool" where
  "serviceFirst S [] = True"
| "serviceFirst S (AddService service source # us) = serviceFirst (insert service S) us"
| "serviceFirst S (AddMethod service method # us) = (service \<in> S \<and> serviceFirst S us)"
| "serviceFirst S (StandardServiceFound servicePath ms # us) =
     serviceFirst (insert servicePath S) us"
| "serviceFirst S (BruteForceServiceFound servicePath ms # us) =
     serviceFirst (insert servicePath S) us"
| "serviceFirst S (HealthServiceFound # us) = serviceFirst (insert ''grpc.health.v1.Health'' S) us"
| "serviceFirst S (ReflectionServicesFound names # us) = serviceFirst (S \<union> set names) us"

section \<open>Version fuzzing\<close>

text \<open>
  \<open>fmt.Sprintf("%d", i)\<close>: the decimal digits of an integer, with a minus sign when
  it is negative.
\<close>

definition digitByte :: "nat \<Rightarrow> char" where
  "digitByte d = char_of (48 + d)"

fun decimal :: "nat \<Rightarrow> string" where
  "decimal n = (if n < 10 then [digitByte n] else decimal (n div 10) @ [digitByte (n mod 10)])"

declare decimal.simps [simp del]

definition Itoa :: "int \<Rightarrow> string" where
  "Itoa i = (if i < 0 then ''-'' @ decimal (nat (- i)) else decimal (nat i))"

definition versionPattern :: "int \<Rightarrow> string" where
  "versionPattern i = ''.v'' @ Itoa i @ ''.''"

text \<open>
  The inner loop of \<open>generateVersionedServicePaths\<close>, over \<open>i\<close> from 1 to
  \<open>maxVersion\<close>: the first version pattern that the path contains is replaced, once,
  by the pattern of the target version \<open>v\<close>, and the loop stops.
\<close>

fun replaceVersion :: "string \<Rightarrow> int list \<Rightarrow> int \<Rightarrow> string" where
  "replaceVersion versionedPath [] v = versionedPath"
| "replaceVersion versionedPath (i # rest) v =
     (if Contains versionedPath (versionPattern i)
      then ReplaceFirst versionedPath (versionPattern i) (versionPattern v)
      else replaceVersion versionedPath rest v)"

text \<open>The outer loop, over \<open>v\<close> from 1 to \<open>maxVersion\<close>, with the slice \<open>results\<close>.\<close>

fun versionLoop :: "string \<Rightarrow> int \<Rightarrow> int list \<Rightarrow> string list \<Rightarrow> string list" where
  "versionLoop servicePath maxVersion [] results = results"
| "versionLoop servicePath maxVersion (v # rest) results =
     (let versionedPath = replaceVersion servicePath [1..maxVersion] v
      in versionLoop servicePath maxVersion rest
           (if versionedPath \<noteq> servicePath then results @ [versionedPath] else results))"

text \<open>
  \<open>maxVersion\<close> is a Go \<open>int\<close>; the model is the function for \<open>maxVersion\<close> below
  \<open>2^63 - 1\<close> (at that value the loop counters wrap round and the loops do not end).
\<close>

definition generateVersionedServicePaths :: "string \<Rightarrow> int \<Rightarrow> string list" where
  "generateVersionedServicePaths servicePath maxVersion =
     (if \<not> Contains servicePath ''.v1.'' \<and> \<not> Contains servicePath ''.v2.''
         \<and> \<not> Contains servicePath ''.v3.''
      then [servicePath]
      else versionLoop servicePath maxVersion [1..maxVersion] [] @ [servicePath])"

fun fuzzServiceVersions :: "string list \<Rightarrow> int \<Rightarrow> string list" where
  "fuzzServiceVersions [] maxVersion = []"
| "fuzzServiceVersions (path # servicePaths) maxVersion =
     generateVersionedServicePaths path maxVersion @ fuzzServiceVersions servicePaths maxVersion"

text \<open>
  The version segments of a path: its components between two dots that are \<open>v\<close>
  followed by a positive number in decimal (\<open>.v1.\<close>, \<open>.v12.\<close>; not \<open>.v0.\<close>,
  \<open>.v01.\<close> or \<open>.video.\<close>).
\<close>

definition isDigit :: "char \<Rightarrow> bool" where
  "isDigit c \<longleftrightarrow> 48 \<le> (of_char c :: nat) \<and> (of_char c :: nat) \<le> 57"

definition isVersionComponent :: "string \<Rightarrow> bool" where
  "isVersionComponent c \<longleftrightarrow>
     (case c of
        [] \<Rightarrow> False
      | x # ds \<Rightarrow> x = CHR ''v'' \<and> ds \<noteq> [] \<and> list_all isDigit ds \<and> \<not> HasPrefix ds ''0'')"

definition interior :: "'a list \<Rightarrow> 'a list" where
  "interior cs = butlast (tl cs)"

definition versionSegments :: "string \<Rightarrow> nat" where
  "versionSegments path = length (filter isVersionComponent (interior (Split path CHR ''.'')))"

text \<open>
  For the proofs: \<open>strings.Join\<close>, the version component \<open>vN\<close> of a version
  pattern \<open>.vN.\<close>, and the replacement of the first element of a list equal to a
  given one.
\<close>

fun Join :: "string list \<Rightarrow> string \<Rightarrow> string" where
  "Join [] sep = []"
| "Join [c] sep = c"
| "Join (c # d # cs) sep = c @ sep @ Join (d # cs) sep"

definition versionComponent :: "int \<Rightarrow> string" where
  "versionComponent i = CHR ''v'' # Itoa i"

fun replaceFirstElem :: "'a list \<Rightarrow> 'a \<Rightarrow> 'a \<Rightarrow> 'a list" where
  "replaceFirstElem [] b b' = []"
| "replaceFirstElem (x # xs) b b' = (if x = b then b' # xs else x # replaceFirstElem xs b b')"

section \<open>The stand-alone scanner's probe of a standard service\<close>

text \<open>
  \<open>checkStandardServices\<close> of the stand-alone scanner, for one service path and the
  methods chosen for it: the loop over the methods with its three variables, then the
  update of the result.
\<close>

record probeVars =
  serviceFound :: bool
  foundMethods :: "string list"
  serviceExplicitlyNotFound :: bool

fun standardMethodsLoop ::
  "'s conn \<Rightarrow> string \<Rightarrow> string list \<Rightarrow> 's \<Rightarrow> probeVars \<Rightarrow> probeVars \<times> 's" where
  "standardMethodsLoop call servicePath [] st vars = (vars, st)"
| "standardMethodsLoop call servicePath (m # methods) st vars =
     (case call st (fullMethod servicePath m) of
        (NoError, st1) \<Rightarrow>
          (vars\<lparr>serviceFound := True, foundMethods := foundMethods vars @ [m]\<rparr>, st1)
      | (PlainError e, st1) \<Rightarrow> standardMethodsLoop call servicePath methods st1 vars
      | (StatusError c msg, st1) \<Rightarrow>
          (let errMsg = ToLower msg in
           if (c = Unimplemented \<or> c = NotFound) \<and> Contains errMsg ''service''
              \<and> Contains errMsg ''unknown service''
           then (vars\<lparr>serviceExplicitlyNotFound := True\<rparr>, st1)
           else if c = Unimplemented \<and> Contains errMsg ''method''
              \<and> Contains errMsg ''unknown method''
           then standardMethodsLoop call servicePath methods st1 (vars\<lparr>serviceFound := True\<rparr>)
           else if c = Unavailable
           then standardMethodsLoop call servicePath methods st1 vars
           else if c = InvalidArgument \<or> c = FailedPrecondition \<or> c = OutOfRange
              \<or> c = Unauthenticated \<or> c = PermissionDenied \<or> c = Internal
           then standardMethodsLoop call servicePath methods st1
                  (vars\<lparr>serviceFound := True, foundMethods := foundMethods vars @ [m]\<rparr>)
           else standardMethodsLoop call servicePath methods st1 vars))"

definition standardServiceProbe ::
  "'s conn \<Rightarrow> string \<Rightarrow> string list \<Rightarrow> 's \<Rightarrow> update list \<times> 's" where
  "standardServiceProbe call servicePath methods st =
     (case standardMethodsLoop call servicePath methods st
             \<lparr>serviceFound = False, foundMethods = [], serviceExplicitlyNotFound = False\<rparr> of
        (vars, st1) \<Rightarrow>
          (if serviceExplicitlyNotFound vars then []
           else if serviceFound vars
             then [StandardServiceFound servicePath (foundMethods vars)]
           else [], st1))"

text \<open>
  The orders in which the updates of parallel workers can reach the result: at each
  step, one worker that has an update left makes its next one.
\<close>

inductive interleaving :: "'a list list \<Rightarrow> 'a list \<Rightarrow> bool" where
  finished: "\<forall>t \<in> set traces. t = [] \<Longrightarrow> interleaving traces []"
| update: "i < length traces \<Longrightarrow> traces ! i = u # rest
         \<Longrightarrow> interleaving (traces[i := rest]) us \<Longrightarrow> interleaving traces (u # us)"

section \<open>An example target\<close>

text \<open>
  A server with a health service and a service \<open>user.UserService\<close> that has the
  methods \<open>Login\<close> and \<open>GetProfile\<close>, and a scan of it with a wordlist of two lines.
\<close>

definition demoServer :: "unit conn" where
  "demoServer st path =
     (if path = ''/grpc.health.v1.Health/Check'' then NoError
      else if path = ''/user.UserService/Login''
        then StatusError InvalidArgument ''missing field''
      else if path = ''/user.UserService/GetProfile''
        then StatusError Unauthenticated ''no token''
      else if take 18 path = ''/user.UserService/''
        then StatusError Unimplemented ''unknown method''
      else StatusError Unimplemented ''unknown service'', st)"

definition demoEnvironment :: "unit environment" where
  "demoEnvironment =
     \<lparr>dialOutcome = DialOk Connecting, stateChanges = [Ready], invoke = demoServer,
      server = (), reflection = None,
      wordlistContent = Lines [''# users'', ''User:Login,Logout,GetProfile''] None,
      rangeOrder = [], workerServer = (\<lambda>i. ()), schedule = [0, 0]\<rparr>"

definition demoScanner :: Scanner where
  "demoScanner =
     newScanner ''localhost:50051'' 10 False ''wordlist.txt'' [] 10 ''2026-01-01T00:00:00Z''"

section \<open>Properties of the response classification\<close>




text \<open>
  C3 (as the code has it). When the health check returns no error (the answer \<open>OK\<close>),
  both probes report a gRPC service. With a gRPC status in the error of the health check,
  \<open>detectServiceType\<close> reports a gRPC service for every code except \<open>UNAVAILABLE\<close>,
  for which it reports none; \<open>checkGRPCService\<close> reports a gRPC service for every code.
  An error without a gRPC status gives false in both. For \<open>checkGRPCService\<close> the
  connection is one that the dial returned and that is neither in \<open>TRANSIENT_FAILURE\<close>
  nor in \<open>SHUTDOWN\<close>.
\<close>

theorem transport_probe_is_grpc:
  assumes "dial (dialAddress tgt) = DialOk st"
    and "st \<noteq> TransientFailure" and "st \<noteq> Shutdown"
  shows "fst (detectServiceType NoError) = True
       \<and> fst (detectServiceType (StatusError c m)) = (c \<noteq> Unavailable)
       \<and> fst (detectServiceType (PlainError e)) = False
       \<and> IsGRPC (checkGRPCService tgt now dial NoError since) = True
       \<and> IsGRPC (checkGRPCService tgt now dial (StatusError c m) since) = True
       \<and> IsGRPC (checkGRPCService tgt now dial (PlainError e) since) = False"
  using assms by (simp add: checkGRPCService_def)

theorem transport_probe_is_grpc_witness:
  "fst (detectServiceType NoError) = True
   \<and> fst (detectServiceType (StatusError PermissionDenied ''denied'')) = (PermissionDenied \<noteq> Unavailable)
   \<and> fst (detectServiceType (PlainError ''unexpected HTTP status code'')) = False
   \<and> IsGRPC (checkGRPCService ''grpc.example:443'' 0 (\<lambda>a. DialOk Ready) NoError 7) = True
   \<and> IsGRPC (checkGRPCService ''grpc.example:443'' 0 (\<lambda>a. DialOk Ready)
         (StatusError PermissionDenied ''denied'') 7) = True
   \<and> IsGRPC (checkGRPCService ''grpc.example:443'' 0 (\<lambda>a. DialOk Ready)
         (PlainError ''unexpected HTTP status code'') 7) = False"
  using transport_probe_is_grpc [of "\<lambda>a. DialOk Ready" "''grpc.example:443''" Ready
      PermissionDenied "''denied''" "''unexpected HTTP status code''" 0 7]
  by simp

text \<open>
  The claim C3 as written (any status code, \<open>UNAVAILABLE\<close> included, gives
  \<open>is_grpc = true\<close>) fails for \<open>detectServiceType\<close>.
\<close>

theorem detectServiceType_unavailable_counterexample:
  "detectServiceType (StatusError Unavailable ''upstream connect error'')
     = (False, ''Service unavailable'')"
  by simp

text \<open>
  C4. A probe answered with status \<open>OUT_OF_RANGE\<close> should confirm service and method;
  in the scanner both \<open>checkService\<close> and \<open>checkMethod\<close> return false on it, whatever
  the message. The stand-alone scanner's \<open>checkStandardServices\<close> records service and
  method on the same answer.
\<close>

theorem out_of_range_not_confirmed:
  "checkService (StatusError OutOfRange m) = False
   \<and> checkMethod (StatusError OutOfRange m) = False
   \<and> fst (standardServiceProbe (\<lambda>st path. (StatusError OutOfRange ''index out of range'', st))
          ''user.UserService'' [''GetUser''] ())
       = [StandardServiceFound ''user.UserService'' [''GetUser'']]"
  by (simp add: standardServiceProbe_def)

text \<open>
  C10. The result of \<open>checkGRPCService\<close> has \<open>IsGRPC\<close> true exactly when its \<open>Error\<close>
  is the empty string, and its \<open>Latency\<close> is the clock reading of the path that
  returned. Path by path: a dial failure gives \<open>IsGRPC = false\<close> with the text of the
  error; a connection in \<open>TRANSIENT_FAILURE\<close> or \<open>SHUTDOWN\<close> gives \<open>IsGRPC = false\<close>
  with "Connection failed: " and the state; on any other connection, a health check whose
  error has no gRPC status gives \<open>IsGRPC = false\<close> with "Non-gRPC response", and a health
  check without error or with a gRPC status gives \<open>IsGRPC = true\<close> with no error text.
  The three failures carry an \<open>Error\<close> that is not empty.
\<close>

theorem checkGRPCService_error_iff:
  "(IsGRPC (checkGRPCService tgt now dial err since)
      \<longleftrightarrow> Error (checkGRPCService tgt now dial err since) = [])
   \<and> Latency (checkGRPCService tgt now dial err since) = since
   \<and> (\<forall>c cs. dial (dialAddress tgt) = DialError c cs \<longrightarrow>
          checkGRPCService tgt now dial err since
            = \<lparr>DTarget = tgt, IsGRPC = False, Error = c # cs, Latency = since,
               DTimestamp = now\<rparr>
          \<and> Error (checkGRPCService tgt now dial err since) \<noteq> [])
   \<and> (\<forall>st. dial (dialAddress tgt) = DialOk st \<and> (st = TransientFailure \<or> st = Shutdown) \<longrightarrow>
          checkGRPCService tgt now dial err since
            = \<lparr>DTarget = tgt, IsGRPC = False,
               Error = ''Connection failed: '' @ connStateString st, Latency = since,
               DTimestamp = now\<rparr>
          \<and> Error (checkGRPCService tgt now dial err since) \<noteq> [])
   \<and> (\<forall>st e. dial (dialAddress tgt) = DialOk st \<and> st \<noteq> TransientFailure \<and> st \<noteq> Shutdown
            \<and> err = PlainError e \<longrightarrow>
          checkGRPCService tgt now dial err since
            = \<lparr>DTarget = tgt, IsGRPC = False, Error = ''Non-gRPC response'', Latency = since,
               DTimestamp = now\<rparr>
          \<and> Error (checkGRPCService tgt now dial err since) \<noteq> [])
   \<and> (\<forall>st. dial (dialAddress tgt) = DialOk st \<and> st \<noteq> TransientFailure \<and> st \<noteq> Shutdown
            \<and> (err = NoError \<or> (\<exists>c m. err = StatusError c m)) \<longrightarrow>
          checkGRPCService tgt now dial err since
            = \<lparr>DTarget = tgt, IsGRPC = True, Error = [], Latency = since,
               DTimestamp = now\<rparr>)"
  by (auto simp: checkGRPCService_def Let_def split: dialResult.splits rpcError.splits)

theorem checkGRPCService_error_iff_witness:
  "checkGRPCService ''closed.example'' 5
       (\<lambda>a. if a = ''closed.example:443'' then DialError CHR ''c'' ''ontext deadline exceeded''
             else DialOk Ready) NoError 3
     = \<lparr>DTarget = ''closed.example'', IsGRPC = False, Error = ''context deadline exceeded'',
        Latency = 3, DTimestamp = 5\<rparr>
   \<and> checkGRPCService ''down.example:443'' 5 (\<lambda>a. DialOk TransientFailure) NoError 3
     = \<lparr>DTarget = ''down.example:443'', IsGRPC = False,
        Error = ''Connection failed: TRANSIENT_FAILURE'', Latency = 3, DTimestamp = 5\<rparr>
   \<and> checkGRPCService ''rest.example:443'' 5 (\<lambda>a. DialOk Ready)
       (PlainError ''unexpected HTTP status code'') 3
     = \<lparr>DTarget = ''rest.example:443'', IsGRPC = False, Error = ''Non-gRPC response'',
        Latency = 3, DTimestamp = 5\<rparr>
   \<and> checkGRPCService ''grpc.example:443'' 5 (\<lambda>a. DialOk Ready)
       (StatusError Unimplemented ''unknown service grpc.health.v1.Health'') 3
     = \<lparr>DTarget = ''grpc.example:443'', IsGRPC = True, Error = [], Latency = 3,
        DTimestamp = 5\<rparr>"
proof -
  let ?closed = "\<lambda>a. if a = ''closed.example:443''
                     then DialError CHR ''c'' ''ontext deadline exceeded'' else DialOk Ready"
  have a: "?closed (dialAddress ''closed.example'')
             = DialError CHR ''c'' ''ontext deadline exceeded''"
    by (simp add: dialAddress_def HasPrefix_def)
  have r1: "checkGRPCService ''closed.example'' 5 ?closed NoError 3
     = \<lparr>DTarget = ''closed.example'', IsGRPC = False, Error = ''context deadline exceeded'',
        Latency = 3, DTimestamp = 5\<rparr>"
    using a checkGRPCService_error_iff [where dial = ?closed and tgt = "''closed.example''"
        and now = 5 and err = NoError and since = 3]
    by simp
  have r2: "checkGRPCService ''down.example:443'' 5 (\<lambda>a. DialOk TransientFailure) NoError 3
     = \<lparr>DTarget = ''down.example:443'', IsGRPC = False,
        Error = ''Connection failed: TRANSIENT_FAILURE'', Latency = 3, DTimestamp = 5\<rparr>"
    using checkGRPCService_error_iff [where dial = "\<lambda>a. DialOk TransientFailure"
        and tgt = "''down.example:443''" and now = 5 and err = NoError and since = 3]
    by simp
  have r3: "checkGRPCService ''rest.example:443'' 5 (\<lambda>a. DialOk Ready)
       (PlainError ''unexpected HTTP status code'') 3
     = \<lparr>DTarget = ''rest.example:443'', IsGRPC = False, Error = ''Non-gRPC response'',
        Latency = 3, DTimestamp = 5\<rparr>"
    using checkGRPCService_error_iff [where dial = "\<lambda>a. DialOk Ready"
        and tgt = "''rest.example:443''" and now = 5
        and err = "PlainError ''unexpected HTTP status code''" and since = 3]
    by simp
  have r4: "checkGRPCService ''grpc.example:443'' 5 (\<lambda>a. DialOk Ready)
       (StatusError Unimplemented ''unknown service grpc.health.v1.Health'') 3
     = \<lparr>DTarget = ''grpc.example:443'', IsGRPC = True, Error = [], Latency = 3,
        DTimestamp = 5\<rparr>"
    using checkGRPCService_error_iff [where dial = "\<lambda>a. DialOk Ready"
        and tgt = "''grpc.example:443''" and now = 5
        and err = "StatusError Unimplemented ''unknown service grpc.health.v1.Health''"
        and since = 3]
    by simp
  from r1 r2 r3 r4 show ?thesis by (simp only:)
qed

section \<open>No duplicates\<close>

lemma contains_iff: "contains xs x \<longleftrightarrow> x \<in> set xs"
  by (induction xs) auto

lemma uniqueStrings_loop_distinct:
  "distinct res \<Longrightarrow> (\<forall>x. seen x \<longleftrightarrow> x \<in> set res)
   \<Longrightarrow> distinct (uniqueStrings_loop input seen res)"
proof (induction input arbitrary: seen res)
  case Nil
  then show ?case by simp
next
  case (Cons item input)
  show ?case
  proof (cases "seen item")
    case True
    with Cons show ?thesis by simp
  next
    case False
    with Cons.prems have "distinct (res @ [item])" by simp
    moreover from Cons.prems
    have "\<forall>x. (seen(item := True)) x \<longleftrightarrow> x \<in> set (res @ [item])" by auto
    ultimately have "distinct (uniqueStrings_loop input (seen(item := True)) (res @ [item]))"
      by (rule Cons.IH)
    with False show ?thesis by simp
  qed
qed

lemma uniqueStrings_loop_set:
  "(\<forall>x. seen x \<longleftrightarrow> x \<in> set res)
   \<Longrightarrow> set (uniqueStrings_loop input seen res) = set res \<union> set input"
proof (induction input arbitrary: seen res)
  case Nil
  then show ?case by simp
next
  case (Cons item input)
  show ?case
  proof (cases "seen item")
    case True
    with Cons show ?thesis by auto
  next
    case False
    from Cons.prems
    have "\<forall>x. (seen(item := True)) x \<longleftrightarrow> x \<in> set (res @ [item])" by auto
    then have "set (uniqueStrings_loop input (seen(item := True)) (res @ [item]))
                 = set (res @ [item]) \<union> set input"
      by (rule Cons.IH)
    with False show ?thesis by simp
  qed
qed

lemma distinct_uniqueStrings: "distinct (uniqueStrings input)"
  unfolding uniqueStrings_def by (rule uniqueStrings_loop_distinct) simp_all

lemma set_uniqueStrings: "set (uniqueStrings input) = set input"
  unfolding uniqueStrings_def by (simp add: uniqueStrings_loop_set)

lemma methodsOf_distinct: "noDuplicates r \<Longrightarrow> distinct (methodsOf (MethodsFound r) s)"
  by (auto simp: noDuplicates_def methodsOf_def split: option.splits)

lemma noDuplicates_addService: "noDuplicates r \<Longrightarrow> noDuplicates (addService s src r)"
  by (auto simp: noDuplicates_def addService_def)

lemma noDuplicates_addMethod: "noDuplicates r \<Longrightarrow> noDuplicates (addMethod s m r)"
  using methodsOf_distinct [of r s]
  by (auto simp: noDuplicates_def addMethod_def Let_def)

lemma noDuplicates_standardServiceFound:
  "noDuplicates r \<Longrightarrow> noDuplicates (standardServiceFound s ms r)"
  by (auto simp: noDuplicates_def standardServiceFound_def Let_def contains_iff
      distinct_uniqueStrings)

lemma noDuplicates_bruteForceServiceFound:
  "noDuplicates r \<Longrightarrow> noDuplicates (bruteForceServiceFound s ms r)"
  by (auto simp: noDuplicates_def bruteForceServiceFound_def Let_def contains_iff
      distinct_uniqueStrings)

lemma noDuplicates_healthServiceFound:
  "noDuplicates r \<Longrightarrow> noDuplicates (healthServiceFound r)"
  using methodsOf_distinct [of r "''grpc.health.v1.Health''"]
  by (auto simp: noDuplicates_def healthServiceFound_def Let_def contains_iff)

lemma noDuplicates_reflectionServicesFound:
  "noDuplicates r \<Longrightarrow> noDuplicates (reflectionServicesFound names r)"
proof (induction names arbitrary: r)
  case Nil
  then show ?case by simp
next
  case (Cons n names)
  from Cons.prems
  have "noDuplicates (if \<not> contains (AvailableServices r) n
          then r\<lparr>AvailableServices := AvailableServices r @ [n]\<rparr> else r)"
    by (auto simp: noDuplicates_def contains_iff)
  then show ?case by (simp add: Cons.IH del: contains.simps)
qed

lemma noDuplicates_applyUpdate: "noDuplicates r \<Longrightarrow> noDuplicates (applyUpdate u r)"
  by (cases u)
    (simp_all add: noDuplicates_addService noDuplicates_addMethod
      noDuplicates_standardServiceFound noDuplicates_bruteForceServiceFound
      noDuplicates_healthServiceFound noDuplicates_reflectionServicesFound)

lemma noDuplicates_applyUpdates: "noDuplicates r \<Longrightarrow> noDuplicates (applyUpdates us r)"
  by (induction us arbitrary: r) (simp_all add: noDuplicates_applyUpdate)

text \<open>
  C5. Whatever updates a scan applies to the res it starts from, and in whatever
  order, the list of services holds no entry twice and neither does the method list of
  any service. The statement covers the updates of both programs
  (\<open>addService\<close> and \<open>addMethod\<close>; the blocks that call \<open>contains\<close> and
  \<open>uniqueStrings\<close>).
\<close>

theorem scan_no_duplicates:
  assumes "AvailableServices r0 = []" and "MethodsFound r0 = Map.empty"
  shows "distinct (AvailableServices (applyUpdates us r0))
       \<and> (\<forall>s ms. MethodsFound (applyUpdates us r0) s = Some ms \<longrightarrow> distinct ms)"
proof -
  from assms have "noDuplicates r0" by (simp add: noDuplicates_def)
  then have "noDuplicates (applyUpdates us r0)" by (rule noDuplicates_applyUpdates)
  then show ?thesis by (simp add: noDuplicates_def)
qed

theorem scan_no_duplicates_witness:
  "distinct (AvailableServices (applyUpdates
       [AddService ''user.UserService'' ''wordlist'', AddMethod ''user.UserService'' ''Get'',
        AddService ''user.UserService'' ''bruteforce'', AddMethod ''user.UserService'' ''Get'',
        BruteForceServiceFound ''user.UserService'' [''Login'', ''Get'', ''Login'']]
       (newScannerResult ''localhost:50051'' ''now'')))
   \<and> MethodsFound (applyUpdates
       [AddService ''user.UserService'' ''wordlist'', AddMethod ''user.UserService'' ''Get'',
        AddService ''user.UserService'' ''bruteforce'', AddMethod ''user.UserService'' ''Get'',
        BruteForceServiceFound ''user.UserService'' [''Login'', ''Get'', ''Login'']]
       (newScannerResult ''localhost:50051'' ''now'')) ''user.UserService''
       = Some [''Get'', ''Login'']
   \<and> distinct [''Get'', ''Login'']"
proof -
  let ?r0 = "newScannerResult ''localhost:50051'' ''now''"
  let ?us = "[AddService ''user.UserService'' ''wordlist'', AddMethod ''user.UserService'' ''Get'',
        AddService ''user.UserService'' ''bruteforce'', AddMethod ''user.UserService'' ''Get'',
        BruteForceServiceFound ''user.UserService'' [''Login'', ''Get'', ''Login'']]"
  have a: "AvailableServices ?r0 = []" by (simp add: newScannerResult_def)
  have b: "MethodsFound ?r0 = Map.empty" by (simp add: newScannerResult_def)
  have m: "MethodsFound (applyUpdates ?us ?r0) ''user.UserService'' = Some [''Get'', ''Login'']"
    by (simp add: newScannerResult_def addService_def addMethod_def methodsOf_def
        bruteForceServiceFound_def uniqueStrings_def)
  from scan_no_duplicates [OF a b, of ?us] m show ?thesis by blast
qed

section \<open>Reflection, the wordlist and the default methods\<close>

text \<open>
  C9. A line that holds an entry followed by a \<open>#\<close> comment should be read as the entry
  alone. \<open>loadEnhancedWordlist\<close> keeps the comment in the service name (such lines are
  in the wordlist the repository ships); \<open>loadServicePathsFromFile\<close> removes it.
\<close>

theorem inline_comment_kept:
  "loadEnhancedWordlist (Lines [''auth.v1.AuthService   # Generic auth service''] None)
     = Inr ([\<lparr>Service = ''auth.v1.AuthService   # Generic auth service'', Methods = []\<rparr>], [])
   \<and> loadEnhancedWordlist (Lines [''auth.v1.AuthService''] None)
     = Inr ([\<lparr>Service = ''auth.v1.AuthService'', Methods = []\<rparr>], [])
   \<and> servicePathLine ''auth.v1.AuthService   # Generic auth service'' []
     = [''auth.v1.AuthService'']"
  by (simp add: wordlistLine_def servicePathLine_def TrimSpace_def isSpace_def HasPrefix_def)

text \<open>The other half of C9 holds: blank lines and comment lines change nothing.\<close>

lemma wordlistLine_ignored:
  assumes "TrimSpace text = [] \<or> HasPrefix (TrimSpace text) ''#''
           \<or> HasPrefix (TrimSpace text) ''//''"
  shows "wordlistLine text acc = acc"
  using assms by (cases acc) (auto simp: wordlistLine_def Let_def)

text \<open>
  C8. With a global method in the wordlist, the default methods should be the ten
  built-in ones followed by the global ones, first occurrences kept in that order. The
  code rebuilds the list from the keys of a map in the order \<open>range\<close> visits them;
  with the global method \<open>GetById\<close>, the order that visits \<open>GetById\<close> first is one of
  them, and gives a list that starts with \<open>GetById\<close>.
\<close>

theorem default_methods_order_lost:
  "mapRange (methodSet (builtinDefaultMethods @ [''GetById'']))
       (''GetById'' # builtinDefaultMethods)
   \<and> wordlistDefaultMethods [''GetById''] (''GetById'' # builtinDefaultMethods)
       = ''GetById'' # builtinDefaultMethods
   \<and> uniqueStrings (builtinDefaultMethods @ [''GetById''])
       = builtinDefaultMethods @ [''GetById'']
   \<and> ''GetById'' # builtinDefaultMethods \<noteq> builtinDefaultMethods @ [''GetById'']"
  by (simp add: mapRange_def methodSet_def wordlistDefaultMethods_def builtinDefaultMethods_def
      uniqueStrings_def insert_commute)

text \<open>What the code does guarantee for the default methods: the elements, each once.\<close>

lemma dom_methodSet_foldl:
  "dom (foldl (\<lambda>set m. set(m \<mapsto> True)) m0 methods) = dom m0 \<union> set methods"
  by (induction methods arbitrary: m0) auto

lemma foldl_append_singletons: "foldl (\<lambda>acc m. acc @ [m]) acc0 keys = acc0 @ keys"
  by (induction keys arbitrary: acc0) auto

lemma wordlistDefaultMethods_elements:
  assumes "globalMethods \<noteq> []"
    and "mapRange (methodSet (builtinDefaultMethods @ globalMethods)) keys"
  shows "distinct (wordlistDefaultMethods globalMethods keys)
       \<and> set (wordlistDefaultMethods globalMethods keys)
           = set (builtinDefaultMethods @ globalMethods)"
  using assms
  by (simp add: wordlistDefaultMethods_def mapRange_def methodSet_def dom_methodSet_foldl
      foldl_append_singletons)

section \<open>Referential integrity\<close>

lemma serviceFirst_mono: "serviceFirst S us \<Longrightarrow> S \<subseteq> T \<Longrightarrow> serviceFirst T us"
proof (induction S us arbitrary: T rule: serviceFirst.induct)
  case (1 S)
  then show ?case by simp
next
  case (2 S service source us)
  from "2.prems" have "insert service S \<subseteq> insert service T" by auto
  with "2.prems" "2.IH" show ?case by simp
next
  case (3 S service meth us)
  then show ?case by auto
next
  case (4 S servicePath ms us)
  from "4.prems" have "insert servicePath S \<subseteq> insert servicePath T" by auto
  with "4.prems" "4.IH" show ?case by simp
next
  case (5 S servicePath ms us)
  from "5.prems" have "insert servicePath S \<subseteq> insert servicePath T" by auto
  with "5.prems" "5.IH" show ?case by simp
next
  case (6 S us)
  from "6.prems"
  have "insert ''grpc.health.v1.Health'' S \<subseteq> insert ''grpc.health.v1.Health'' T" by auto
  with "6.prems" "6.IH" show ?case by simp
next
  case (7 S names us)
  from "7.prems" have "S \<union> set names \<subseteq> T \<union> set names" by auto
  with "7.prems" "7.IH" show ?case by simp
qed

lemma serviceFirst_append:
  "serviceFirst S us \<Longrightarrow> serviceFirst S vs \<Longrightarrow> serviceFirst S (us @ vs)"
proof (induction S us rule: serviceFirst.induct)
  case (1 S)
  then show ?case by simp
next
  case (2 S service source us)
  then show ?case using serviceFirst_mono [of S vs "insert service S"] by auto
next
  case (3 S service meth us)
  then show ?case by auto
next
  case (4 S servicePath ms us)
  then show ?case using serviceFirst_mono [of S vs "insert servicePath S"] by auto
next
  case (5 S servicePath ms us)
  then show ?case using serviceFirst_mono [of S vs "insert servicePath S"] by auto
next
  case (6 S us)
  then show ?case using serviceFirst_mono [of S vs "insert ''grpc.health.v1.Health'' S"] by auto
next
  case (7 S names us)
  then show ?case using serviceFirst_mono [of S vs "S \<union> set names"] by auto
qed

lemma set_reflectionServicesFound:
  "set (AvailableServices (reflectionServicesFound names r)) = set (AvailableServices r) \<union> set names"
  by (induction names arbitrary: r) (auto simp: contains_iff)

lemma MethodsFound_reflectionServicesFound:
  "MethodsFound (reflectionServicesFound names r) = MethodsFound r"
  by (induction names arbitrary: r) auto

lemma applyUpdate_integrity:
  assumes "referentialIntegrity r" and "S \<subseteq> set (AvailableServices r)"
    and "serviceFirst S (u # us)"
  shows "referentialIntegrity (applyUpdate u r)
       \<and> (\<exists>S'. S' \<subseteq> set (AvailableServices (applyUpdate u r)) \<and> serviceFirst S' us)"
proof (cases u)
  case (AddService service source)
  with assms show ?thesis
    by (auto simp: referentialIntegrity_def addService_def intro!: exI [of _ "insert service S"])
next
  case (AddMethod service meth)
  with assms show ?thesis
    by (auto simp: referentialIntegrity_def addMethod_def Let_def intro!: exI [of _ S])
next
  case (StandardServiceFound servicePath ms)
  with assms show ?thesis
    by (auto simp: referentialIntegrity_def standardServiceFound_def Let_def contains_iff
        intro!: exI [of _ "insert servicePath S"])
next
  case (BruteForceServiceFound servicePath ms)
  with assms show ?thesis
    by (auto simp: referentialIntegrity_def bruteForceServiceFound_def Let_def contains_iff
        intro!: exI [of _ "insert servicePath S"])
next
  case HealthServiceFound
  with assms show ?thesis
    by (auto simp: referentialIntegrity_def healthServiceFound_def Let_def contains_iff
        intro!: exI [of _ "insert ''grpc.health.v1.Health'' S"])
next
  case (ReflectionServicesFound names)
  with assms show ?thesis
    by (auto simp: referentialIntegrity_def set_reflectionServicesFound
        MethodsFound_reflectionServicesFound intro!: exI [of _ "S \<union> set names"])
qed

lemma applyUpdates_integrity:
  "referentialIntegrity r \<Longrightarrow> S \<subseteq> set (AvailableServices r) \<Longrightarrow> serviceFirst S us
   \<Longrightarrow> referentialIntegrity (applyUpdates us r)"
proof (induction us arbitrary: r S)
  case Nil
  then show ?case by simp
next
  case (Cons u us)
  from applyUpdate_integrity [OF Cons.prems]
  obtain S' where "referentialIntegrity (applyUpdate u r)"
    and "S' \<subseteq> set (AvailableServices (applyUpdate u r))" and "serviceFirst S' us"
    by blast
  then show ?case by (simp add: Cons.IH)
qed


lemma checkMethods_serviceFirst:
  "checkMethods call service methods st = (us, st') \<Longrightarrow> service \<in> S \<Longrightarrow> serviceFirst S us"
proof (induction methods arbitrary: st us st')
  case Nil
  then show ?case by simp
next
  case (Cons meth methods)
  obtain err st1 where c: "call st (fullMethod service meth) = (err, st1)"
    by (cases "call st (fullMethod service meth)")
  obtain vs st2 where r: "checkMethods call service methods st1 = (vs, st2)"
    by (cases "checkMethods call service methods st1")
  from Cons.IH [OF r Cons.prems(2)] have "serviceFirst S vs" .
  with Cons.prems c r show ?case by (auto split: if_splits)
qed

lemma probePattern_serviceFirst:
  assumes "probePattern call source p st = Some (us, st')"
  shows "serviceFirst S us"
proof (cases "Methods p")
  case Nil
  with assms show ?thesis by (simp add: probePattern_def)
next
  case (Cons method0 rest)
  obtain err st1 where c: "call st (fullMethod (Service p) method0) = (err, st1)"
    by (cases "call st (fullMethod (Service p) method0)")
  obtain vs st2 where r: "checkMethods call (Service p) (Methods p) st1 = (vs, st2)"
    by (cases "checkMethods call (Service p) (Methods p) st1")
  have "serviceFirst (insert (Service p) S) vs"
    by (rule checkMethods_serviceFirst [OF r]) simp
  with assms Cons c r show ?thesis
    by (auto simp: probePattern_def split: if_splits)
qed

lemma probePatterns_serviceFirst:
  "probePatterns call source ps st = Some (us, st') \<Longrightarrow> serviceFirst S us"
proof (induction ps arbitrary: st us)
  case Nil
  then show ?case by simp
next
  case (Cons p ps)
  from Cons.prems obtain vs st1 ws
    where a: "probePattern call source p st = Some (vs, st1)"
      and b: "probePatterns call source ps st1 = Some (ws, st')"
      and c: "us = vs @ ws"
    by (auto split: option.splits prod.splits)
  from a have "serviceFirst S vs" by (rule probePattern_serviceFirst)
  moreover from b have "serviceFirst S ws" by (rule Cons.IH)
  ultimately show ?case using c by (simp add: serviceFirst_append)
qed

lemma checkStandardServices_serviceFirst:
  assumes "checkStandardServices call st = Some (us, st')"
  shows "serviceFirst S us"
proof -
  obtain err st1 where c: "call st ''/grpc.health.v1.Health/Check'' = (err, st1)"
    by (cases "call st ''/grpc.health.v1.Health/Check''")
  with assms obtain vs
    where a: "probePatterns call ''standard'' (take 3 commonPatterns) st1 = Some (vs, st')"
      and b: "us = (if err = NoError
                    then [AddService ''grpc.health.v1.Health'' ''standard'',
                          AddMethod ''grpc.health.v1.Health'' ''Check'']
                    else []) @ vs"
    by (auto simp: checkStandardServices_def split: option.splits prod.splits)
  from a have "serviceFirst (insert ''grpc.health.v1.Health'' S) vs"
    by (rule probePatterns_serviceFirst)
  moreover from a have "serviceFirst S vs" by (rule probePatterns_serviceFirst)
  ultimately show ?thesis using b by simp
qed

lemma tryPatterns_serviceFirst:
  "tryPatterns call methodsToTry patterns st = (us, st') \<Longrightarrow> serviceFirst S us"
proof (induction patterns arbitrary: st)
  case Nil
  then show ?case by simp
next
  case (Cons pattern patterns)
  show ?case
  proof (cases methodsToTry)
    case Nil
    with Cons show ?thesis by simp
  next
    case (Cons method0 rest)
    obtain err st1 where c: "call st (fullMethod pattern method0) = (err, st1)"
      by (cases "call st (fullMethod pattern method0)")
    show ?thesis
    proof (cases "checkService err")
      case True
      obtain vs st2 where r: "checkMethods call pattern methodsToTry st1 = (vs, st2)"
        by (cases "checkMethods call pattern methodsToTry st1")
      have "serviceFirst (insert pattern S) vs"
        by (rule checkMethods_serviceFirst [OF r]) simp
      with Cons.prems Cons c r True show ?thesis by auto
    next
      case False
      with Cons.prems Cons c have "tryPatterns call methodsToTry patterns st1 = (us, st')"
        by simp
      then show ?thesis by (rule Cons.IH)
    qed
  qed
qed

lemma wordlistWorker_serviceFirst: "serviceFirst S (wordlistWorker call defaultMethods e st)"
proof -
  let ?ms = "if length (Methods e) = 0 then defaultMethods else Methods e"
  obtain us st' where r: "tryPatterns call ?ms (entryPatterns (Service e)) st = (us, st')"
    by (cases "tryPatterns call ?ms (entryPatterns (Service e)) st")
  from r have "serviceFirst S us" by (rule tryPatterns_serviceFirst)
  with r show ?thesis by (simp add: wordlistWorker_def Let_def)
qed

lemma concat_serviceFirst:
  "(\<forall>t \<in> set traces. serviceFirst S t) \<Longrightarrow> serviceFirst S (concat traces)"
  by (induction traces) (auto intro: serviceFirst_append)

lemma interleave_serviceFirst:
  "(\<forall>t \<in> set traces. serviceFirst S t) \<Longrightarrow> serviceFirst S (interleave sched traces)"
proof (induction sched arbitrary: traces S)
  case Nil
  then show ?case by (simp add: concat_serviceFirst)
next
  case (Cons i sched)
  show ?case
  proof (cases "i < length traces")
    case False
    with Cons show ?thesis by simp
  next
    case True
    show ?thesis
    proof (cases "traces ! i")
      case Nil
      with True Cons show ?thesis by simp
    next
      case (Cons u rest)
      from True Cons.prems have ti: "serviceFirst S (traces ! i)" by simp
      have step: "\<And>S'. S \<subseteq> S' \<Longrightarrow> serviceFirst S' rest
                   \<Longrightarrow> serviceFirst S' (interleave sched (traces[i := rest]))"
      proof -
        fix S' assume sub: "S \<subseteq> S'" and r: "serviceFirst S' rest"
        have "\<forall>t \<in> set (traces[i := rest]). serviceFirst S' t"
        proof
          fix t assume "t \<in> set (traces[i := rest])"
          then have "t = rest \<or> t \<in> set traces"
            using set_update_subset_insert [of traces i rest] by auto
          with r sub Cons.prems show "serviceFirst S' t"
            by (auto intro: serviceFirst_mono)
        qed
        then show "serviceFirst S' (interleave sched (traces[i := rest]))"
          by (rule Cons.IH)
      qed
      from ti Cons True step show ?thesis
        by (cases u) (auto simp: subset_insertI)
    qed
  qed
qed


lemma those_Some_map: "those xs = Some ys \<Longrightarrow> xs = map Some ys"
  by (induction xs arbitrary: ys) (auto split: option.splits)

lemma referentialIntegrity_ScanMode:
  "referentialIntegrity (r\<lparr>ScanMode := m\<rparr>) = referentialIntegrity r"
  by (simp add: referentialIntegrity_def)

lemma tryReflection_integrity:
  assumes "referentialIntegrity r" and "tryReflection rs r = (enabled, r1)"
  shows "referentialIntegrity r1"
proof -
  have sf: "serviceFirst {} (map (\<lambda>service. AddService service ''reflection'') names)" for names
    by (induction names) (auto intro: serviceFirst_mono)
  have "referentialIntegrity (r\<lparr>ReflectionEnabled := True\<rparr>)"
    using assms(1) by (simp add: referentialIntegrity_def)
  then have "referentialIntegrity
      (applyUpdates (map (\<lambda>service. AddService service ''reflection'') names)
         (r\<lparr>ReflectionEnabled := True\<rparr>))" for names
    by (rule applyUpdates_integrity [where S = "{}"]) (simp_all add: sf)
  with assms show ?thesis
    by (cases "(rs, r)" rule: tryReflection.cases) auto
qed

lemma wordlistBruteForce_integrity:
  assumes "referentialIntegrity r" and "wordlistBruteForce s env r = Inr r'"
  shows "referentialIntegrity r'"
proof -
  from assms(2) obtain entries globalMethods
    where r': "r' = applyUpdates
          (interleave (schedule env)
             (map (\<lambda>(i, e). wordlistWorker (invoke env)
                     (wordlistDefaultMethods globalMethods (rangeOrder env)) e
                     (workerServer env i))
                (enumerate 0 entries))) r"
    by (auto simp: wordlistBruteForce_def Let_def split: sum.splits option.splits prod.splits)
  have "serviceFirst {} (interleave (schedule env)
             (map (\<lambda>(i, e). wordlistWorker (invoke env)
                     (wordlistDefaultMethods globalMethods (rangeOrder env)) e
                     (workerServer env i))
                (enumerate 0 entries)))"
    by (rule interleave_serviceFirst) (auto simp: wordlistWorker_serviceFirst)
  with assms(1) show ?thesis unfolding r'
    by (intro applyUpdates_integrity [where S = "{}"]) simp_all
qed

lemma smartBruteForce_integrity:
  assumes "referentialIntegrity r" and "smartBruteForce s env r = Inr r'"
  shows "referentialIntegrity r'"
proof -
  let ?probes = "map (\<lambda>(i, p). probePattern (invoke env) ''bruteforce'' p (workerServer env i))
                   (enumerate 0 generateSmartPatterns)"
  from assms(2) obtain traces
    where t: "those ?probes = Some traces"
      and r': "r' = applyUpdates (interleave (schedule env) (map fst traces)) r"
    by (auto simp: smartBruteForce_def Let_def split: option.splits)
  from t have eq: "?probes = map Some traces" by (rule those_Some_map)
  have "\<forall>t \<in> set (map fst traces). serviceFirst {} t"
  proof
    fix u assume "u \<in> set (map fst traces)"
    then obtain st' where "(u, st') \<in> set traces" by auto
    then have "Some (u, st') \<in> set ?probes" unfolding eq by simp
    then obtain i p where "probePattern (invoke env) ''bruteforce'' p (workerServer env i) = Some (u, st')"
      by auto
    then show "serviceFirst {} u" by (rule probePattern_serviceFirst)
  qed
  then have "serviceFirst {} (interleave (schedule env) (map fst traces))"
    by (rule interleave_serviceFirst)
  with assms(1) show ?thesis unfolding r'
    by (intro applyUpdates_integrity [where S = "{}"]) simp_all
qed

text \<open>Every order of the workers' updates is the merge of some schedule.\<close>

lemma interleaving_schedule: "interleaving traces us \<Longrightarrow> \<exists>sched. interleave sched traces = us"
proof (induction rule: interleaving.induct)
  case (finished traces)
  then have "concat traces = []" by simp
  then have "interleave [] traces = []" by simp
  then show ?case by blast
next
  case (update i traces u rest us)
  then obtain sched where "interleave sched (traces[i := rest]) = us" by blast
  with update.hyps(1,2) have "interleave (i # sched) traces = u # us" by simp
  then show ?case by blast
qed

text \<open>
  C6. A scan that completes from a result in which every key of the methods map is a
  service of the list ends with such a result: whatever the server answers, whatever the
  wordlist holds and however the workers are scheduled, every key of \<open>MethodsFound\<close>
  is in \<open>AvailableServices\<close>. The result that \<open>main\<close> creates has an empty map.
\<close>

theorem scan_referential_integrity:
  assumes "Run s env = Inr r" and "referentialIntegrity (result s)"
  shows "dom (MethodsFound r) \<subseteq> set (AvailableServices r)"
proof -
  from assms(1) obtain state where d: "dialOutcome env = DialOk state"
    by (auto simp: Run_def split: dialResult.splits)
  obtain err st1 where h: "invoke env (server env) ''/grpc.health.v1.Health/Check'' = (err, st1)"
    by (cases "invoke env (server env) ''/grpc.health.v1.Health/Check''")
  obtain enabled r1 where t: "tryReflection (reflection env) (result s) = (enabled, r1)"
    by (cases "tryReflection (reflection env) (result s)")
  from assms(1) d h t obtain us st2 where c: "checkStandardServices (invoke env) st1 = Some (us, st2)"
    by (auto simp: Run_def Let_def split: if_splits prod.splits option.splits)
  let ?r2 = "if enabled then r1\<lparr>ScanMode := ''reflection''\<rparr> else r1"
  let ?r3 = "applyUpdates us ?r2"
  from assms(2) t have "referentialIntegrity r1" by (rule tryReflection_integrity)
  then have "referentialIntegrity ?r2" by (simp add: referentialIntegrity_ScanMode)
  moreover from c have "serviceFirst {} us" by (rule checkStandardServices_serviceFirst)
  ultimately have i3: "referentialIntegrity ?r3"
    by (intro applyUpdates_integrity [where S = "{}"]) simp_all
  from assms(1) d h t c have
    "wordlistBruteForce s env (?r3\<lparr>ScanMode := ''wordlist''\<rparr>) = Inr r
     \<or> smartBruteForce s env (?r3\<lparr>ScanMode := ''bruteforce''\<rparr>) = Inr r
     \<or> r = ?r3\<lparr>ScanMode := ''standard''\<rparr> \<or> r = ?r3"
    by (auto simp: Run_def Let_def split: if_splits prod.splits sum.splits scanError.splits)
  with i3 have "referentialIntegrity r"
    by (auto simp: referentialIntegrity_ScanMode
        intro: wordlistBruteForce_integrity [rotated] smartBruteForce_integrity [rotated])
  then show ?thesis by (simp add: referentialIntegrity_def)
qed


theorem scan_referential_integrity_witness:
  "\<exists>r. Run demoScanner demoEnvironment = Inr r
       \<and> AvailableServices r = [''grpc.health.v1.Health'', ''user.UserService'']
       \<and> MethodsFound r ''user.UserService'' = Some [''Login'', ''GetProfile'']
       \<and> dom (MethodsFound r) \<subseteq> set (AvailableServices r)"
proof -
  have "case Run demoScanner demoEnvironment of
          Inl e \<Rightarrow> False
        | Inr r \<Rightarrow> AvailableServices r = [''grpc.health.v1.Health'', ''user.UserService'']
            \<and> MethodsFound r ''user.UserService'' = Some [''Login'', ''GetProfile'']"
    by code_simp
  then obtain r where r: "Run demoScanner demoEnvironment = Inr r"
    and a: "AvailableServices r = [''grpc.health.v1.Health'', ''user.UserService'']"
    and m: "MethodsFound r ''user.UserService'' = Some [''Login'', ''GetProfile'']"
    by (auto split: sum.splits)
  have "referentialIntegrity (result demoScanner)"
    by (simp add: demoScanner_def newScanner_def newScannerResult_def referentialIntegrity_def)
  with r have "dom (MethodsFound r) \<subseteq> set (AvailableServices r)"
    by (rule scan_referential_integrity)
  with r a m show ?thesis by blast
qed

section \<open>The reflection flag of a scan\<close>

lemma ReflectionEnabled_reflectionServicesFound:
  "ReflectionEnabled (reflectionServicesFound names r) = ReflectionEnabled r"
  by (induction names arbitrary: r) auto

lemma ReflectionEnabled_applyUpdate:
  "ReflectionEnabled (applyUpdate u r) = ReflectionEnabled r"
  by (cases u)
    (simp_all add: addService_def addMethod_def standardServiceFound_def
      bruteForceServiceFound_def healthServiceFound_def Let_def
      ReflectionEnabled_reflectionServicesFound)

lemma ReflectionEnabled_applyUpdates:
  "ReflectionEnabled (applyUpdates us r) = ReflectionEnabled r"
  by (induction us arbitrary: r) (simp_all add: ReflectionEnabled_applyUpdate)

lemma ReflectionEnabled_wordlistBruteForce:
  "wordlistBruteForce s env r = Inr r' \<Longrightarrow> ReflectionEnabled r' = ReflectionEnabled r"
  by (auto simp: wordlistBruteForce_def Let_def ReflectionEnabled_applyUpdates
      split: sum.splits option.splits prod.splits)

lemma ReflectionEnabled_smartBruteForce:
  "smartBruteForce s env r = Inr r' \<Longrightarrow> ReflectionEnabled r' = ReflectionEnabled r"
  by (auto simp: smartBruteForce_def Let_def ReflectionEnabled_applyUpdates
      split: option.splits)

text \<open>
  C2. The flag \<open>reflection_enabled\<close> should be true only when the reflection probe
  received a service list that is not empty. When the reflection stream answers the
  \<open>list_services\<close> request with a list of zero services, every scan of the scanner
  that completes reports \<open>ReflectionEnabled = true\<close>: \<open>tryReflection\<close> sets the flag
  for any list and nothing resets it. The stand-alone scanner, on the same stream, leaves
  the flag false.
\<close>

theorem empty_reflection_list_enabled:
  assumes "reflection env = Some (ListServicesResponse [])" and "Run s env = Inr r"
  shows "ReflectionEnabled r = True
       \<and> ReflectionEnabled (mainReflection (reflection env) r0) = False"
proof -
  from assms(2) obtain state where d: "dialOutcome env = DialOk state"
    by (auto simp: Run_def split: dialResult.splits)
  obtain err st1 where h: "invoke env (server env) ''/grpc.health.v1.Health/Check'' = (err, st1)"
    by (cases "invoke env (server env) ''/grpc.health.v1.Health/Check''")
  from assms(1) have t: "tryReflection (reflection env) (result s)
      = (True, (result s)\<lparr>ReflectionEnabled := True\<rparr>)"
    by simp
  from assms(2) d h t obtain us st2
    where c: "checkStandardServices (invoke env) st1 = Some (us, st2)"
    by (auto simp: Run_def Let_def split: if_splits prod.splits option.splits)
  let ?r3 = "applyUpdates us ((result s)\<lparr>ReflectionEnabled := True, ScanMode := ''reflection''\<rparr>)"
  have e3: "ReflectionEnabled ?r3" by (simp add: ReflectionEnabled_applyUpdates)
  from assms(2) d h t c have
    "wordlistBruteForce s env (?r3\<lparr>ScanMode := ''wordlist''\<rparr>) = Inr r
     \<or> smartBruteForce s env (?r3\<lparr>ScanMode := ''bruteforce''\<rparr>) = Inr r
     \<or> r = ?r3\<lparr>ScanMode := ''standard''\<rparr> \<or> r = ?r3"
    by (auto simp: Run_def Let_def split: if_splits prod.splits sum.splits scanError.splits)
  with e3 have "ReflectionEnabled r"
    by (auto dest: ReflectionEnabled_wordlistBruteForce ReflectionEnabled_smartBruteForce)
  with assms(1) show ?thesis by (simp add: mainReflection_def)
qed

theorem empty_reflection_list_enabled_witness:
  "\<exists>r. Run demoScanner (demoEnvironment\<lparr>reflection := Some (ListServicesResponse [])\<rparr>) = Inr r
       \<and> ReflectionEnabled r = True
       \<and> ReflectionEnabled (mainReflection (Some (ListServicesResponse []))
             (newStandaloneResult ''localhost:50051'')) = False"
proof -
  let ?env = "demoEnvironment\<lparr>reflection := Some (ListServicesResponse [])\<rparr>"
  have "case Run demoScanner ?env of Inl e \<Rightarrow> False | Inr r \<Rightarrow> True"
    by code_simp
  then obtain r where r: "Run demoScanner ?env = Inr r"
    by (auto split: sum.splits)
  have "reflection ?env = Some (ListServicesResponse [])" by simp
  from empty_reflection_list_enabled [OF this r, of "newStandaloneResult ''localhost:50051''"] r
  show ?thesis by auto
qed

section \<open>Version fuzzing is idempotent on paths with one version segment\<close>

subsection \<open>Splitting and joining\<close>

lemma Split_nonempty: "Split s sep \<noteq> []"
  by (induction s) (auto split: list.splits)

lemma Split_sepfree: "c \<in> set (Split s sep) \<Longrightarrow> sep \<notin> set c"
  by (induction s arbitrary: c) (auto split: list.splits if_splits)

lemma Join_Cons: "cs \<noteq> [] \<Longrightarrow> Join (c # cs) sep = c @ sep @ Join cs sep"
  by (cases cs) auto

lemma Join_Split: "Join (Split s sep) [sep] = s"
proof (induction s)
  case Nil
  then show ?case by simp
next
  case (Cons c s)
  show ?case
  proof (cases "c = sep")
    case True
    with Cons show ?thesis by (simp add: Join_Cons Split_nonempty)
  next
    case False
    obtain p ps where sp: "Split s sep = p # ps"
      using Split_nonempty [of s sep] by (cases "Split s sep") auto
    with Cons False show ?thesis by (cases ps) auto
  qed
qed

lemma HasPrefix_Cons: "HasPrefix (a # s) (z # zs) \<longleftrightarrow> a = z \<and> HasPrefix s zs"
  by (auto simp: HasPrefix_def)

lemma HasPrefix_Nil: "HasPrefix s []"
  by (simp add: HasPrefix_def)

lemma Contains_skip:
  "z \<notin> set x \<Longrightarrow> Contains (x @ y) (z # zs) = Contains y (z # zs)"
  by (induction x) (auto simp: HasPrefix_Cons)

lemma Contains_sepfree: "z \<notin> set x \<Longrightarrow> \<not> Contains x (z # zs)"
  using Contains_skip [of z x "[]" zs] by simp

lemma ReplaceFirst_skip:
  "z \<notin> set x \<Longrightarrow> ReplaceFirst (x @ y) (z # zs) new = x @ ReplaceFirst y (z # zs) new"
  by (induction x) (auto simp: HasPrefix_Cons)

lemma ReplaceFirst_sepfree: "z \<notin> set x \<Longrightarrow> ReplaceFirst x (z # zs) new = x"
  using ReplaceFirst_skip [of z x "[]" zs new] by simp

lemma HasPrefix_component:
  "sep \<notin> set d \<Longrightarrow> sep \<notin> set b \<Longrightarrow> HasPrefix (d @ sep # r) (b @ [sep]) \<longleftrightarrow> d = b"
proof (induction d arbitrary: b)
  case Nil
  then show ?case by (cases b) (auto simp: HasPrefix_Cons HasPrefix_Nil)
next
  case (Cons a d)
  then show ?case by (cases b) (auto simp: HasPrefix_Cons HasPrefix_Nil)
qed

lemma HasPrefix_last_component:
  "sep \<notin> set d \<Longrightarrow> \<not> HasPrefix d (b @ [sep])"
proof
  assume a: "sep \<notin> set d" and "HasPrefix d (b @ [sep])"
  then have "take (length (b @ [sep])) d = b @ [sep]" by (simp add: HasPrefix_def)
  then have "sep \<in> set (take (length (b @ [sep])) d)" by simp
  then have "sep \<in> set d" by (rule in_set_takeD)
  with a show False by simp
qed


lemma Join_snoc_nonempty: "Join (x # xs @ [l]) sep = x @ sep @ Join (xs @ [l]) sep"
  by (simp add: Join_Cons)

lemma Contains_Join:
  assumes "\<forall>c \<in> set (h # I @ [l]). sep \<notin> set c" and "sep \<notin> set b"
  shows "Contains (Join (h # I @ [l]) [sep]) (sep # b @ [sep]) \<longleftrightarrow> b \<in> set I"
  using assms
proof (induction I arbitrary: h)
  case Nil
  then show ?case
    by (simp add: Contains_skip HasPrefix_Cons HasPrefix_last_component Contains_sepfree)
next
  case (Cons x xs)
  have "Contains (Join (h # (x # xs) @ [l]) [sep]) (sep # b @ [sep])
          = Contains (sep # Join (x # xs @ [l]) [sep]) (sep # b @ [sep])"
    using Cons.prems by (simp add: Join_Cons Contains_skip)
  also have "\<dots> \<longleftrightarrow> HasPrefix (Join (x # xs @ [l]) [sep]) (b @ [sep])
                   \<or> Contains (Join (x # xs @ [l]) [sep]) (sep # b @ [sep])"
    by (simp add: HasPrefix_Cons)
  also have "HasPrefix (Join (x # xs @ [l]) [sep]) (b @ [sep]) \<longleftrightarrow> x = b"
    using Cons.prems by (simp add: Join_Cons HasPrefix_component)
  also have "Contains (Join (x # xs @ [l]) [sep]) (sep # b @ [sep]) \<longleftrightarrow> b \<in> set xs"
    using Cons.prems by (intro Cons.IH) auto
  finally show ?case by auto
qed

lemma ReplaceFirst_Join:
  assumes "\<forall>c \<in> set (h # I @ [l]). sep \<notin> set c" and "sep \<notin> set b"
  shows "ReplaceFirst (Join (h # I @ [l]) [sep]) (sep # b @ [sep]) (sep # b' @ [sep])
           = Join (h # replaceFirstElem I b b' @ [l]) [sep]"
  using assms
proof (induction I arbitrary: h)
  case Nil
  then show ?case
    by (simp add: ReplaceFirst_skip HasPrefix_Cons HasPrefix_last_component
        ReplaceFirst_sepfree)
next
  case (Cons x xs)
  have j: "Join (h # (x # xs) @ [l]) [sep] = h @ sep # x @ sep # Join (xs @ [l]) [sep]"
    by (simp add: Join_Cons)
  show ?case
  proof (cases "x = b")
    case True
    have "ReplaceFirst (Join (h # (x # xs) @ [l]) [sep]) (sep # b @ [sep]) (sep # b' @ [sep])
            = h @ ReplaceFirst (sep # x @ sep # Join (xs @ [l]) [sep]) (sep # b @ [sep])
                  (sep # b' @ [sep])"
      unfolding j using Cons.prems by (simp add: ReplaceFirst_skip)
    also have "\<dots> = h @ sep # b' @ sep # Join (xs @ [l]) [sep]"
      using True Cons.prems by (simp add: HasPrefix_Cons HasPrefix_component)
    finally show ?thesis using True by (simp add: Join_Cons)
  next
    case False
    have "ReplaceFirst (Join (h # (x # xs) @ [l]) [sep]) (sep # b @ [sep]) (sep # b' @ [sep])
            = h @ ReplaceFirst (sep # x @ sep # Join (xs @ [l]) [sep]) (sep # b @ [sep])
                  (sep # b' @ [sep])"
      unfolding j using Cons.prems by (simp add: ReplaceFirst_skip)
    also have "\<dots> = h @ sep # ReplaceFirst (Join (x # xs @ [l]) [sep]) (sep # b @ [sep])
                  (sep # b' @ [sep])"
      using False Cons.prems by (simp add: HasPrefix_Cons HasPrefix_component Join_Cons)
    also have "ReplaceFirst (Join (x # xs @ [l]) [sep]) (sep # b @ [sep]) (sep # b' @ [sep])
                 = Join (x # replaceFirstElem xs b b' @ [l]) [sep]"
      using Cons.prems by (intro Cons.IH) auto
    finally show ?thesis using False by (simp add: Join_Cons)
  qed
qed

subsection \<open>Lists\<close>

lemma filter_unique:
  "length (filter P xs) \<le> 1 \<Longrightarrow> x \<in> set xs \<Longrightarrow> y \<in> set xs \<Longrightarrow> P x \<Longrightarrow> P y \<Longrightarrow> x = y"
proof (induction xs)
  case Nil
  then show ?case by simp
next
  case (Cons a xs)
  show ?case
  proof (cases "P a")
    case True
    with Cons.prems have "filter P xs = []" by simp
    then have "\<forall>z \<in> set xs. \<not> P z" by (simp add: filter_empty_conv)
    with Cons.prems show ?thesis by auto
  next
    case False
    with Cons show ?thesis by auto
  qed
qed

lemma replaceFirstElem_absent: "b \<notin> set xs \<Longrightarrow> replaceFirstElem xs b b' = xs"
  by (induction xs) auto

lemma replaceFirstElem_same: "replaceFirstElem xs b b = xs"
  by (induction xs) auto

lemma replaceFirstElem_member: "b \<in> set xs \<Longrightarrow> b' \<in> set (replaceFirstElem xs b b')"
  by (induction xs) auto

lemma replaceFirstElem_set: "set (replaceFirstElem xs b b') \<subseteq> insert b' (set xs)"
  by (induction xs) auto

lemma replaceFirstElem_filter:
  "P b \<Longrightarrow> P b' \<Longrightarrow> length (filter P (replaceFirstElem xs b b')) = length (filter P xs)"
  by (induction xs) auto

lemma replaceFirstElem_twice:
  "b' \<notin> set xs \<or> b' = b
   \<Longrightarrow> replaceFirstElem (replaceFirstElem xs b b') b' b'' = replaceFirstElem xs b b''"
  by (induction xs) auto


subsection \<open>Decimal numbers\<close>

lemma of_char_digitByte: "d < 10 \<Longrightarrow> (of_char (digitByte d) :: nat) = 48 + d"
  by (simp add: digitByte_def)

lemma decimal_nonempty: "decimal n \<noteq> []"
  by (subst decimal.simps) simp

lemma decimal_digits: "list_all isDigit (decimal n)"
proof (induction n rule: decimal.induct)
  case (1 n)
  show ?case
  proof (cases "n < 10")
    case True
    then show ?thesis
      by (subst decimal.simps) (simp add: isDigit_def of_char_digitByte)
  next
    case False
    with 1 have "list_all isDigit (decimal (n div 10))" by simp
    moreover have "isDigit (digitByte (n mod 10))"
      by (simp add: isDigit_def of_char_digitByte)
    ultimately show ?thesis using False by (subst decimal.simps) simp
  qed
qed

lemma isDigit_not_dot: "isDigit c \<Longrightarrow> c \<noteq> CHR ''.''"
  by (auto simp: isDigit_def)

lemma decimal_dotfree: "CHR ''.'' \<notin> set (decimal n)"
  using decimal_digits [of n] isDigit_not_dot by (auto simp: list_all_iff)

lemma HasPrefix_append_nonempty: "xs \<noteq> [] \<Longrightarrow> HasPrefix (xs @ ys) [z] = HasPrefix xs [z]"
  by (cases xs) (auto simp: HasPrefix_def)

lemma decimal_no_leading_zero: "1 \<le> n \<Longrightarrow> \<not> HasPrefix (decimal n) ''0''"
proof (induction n rule: decimal.induct)
  case (1 n)
  show ?case
  proof (cases "n < 10")
    case True
    with "1.prems" have "digitByte n \<noteq> CHR ''0''"
      using of_char_digitByte [of n] by auto
    with True show ?thesis by (subst decimal.simps) (simp add: HasPrefix_def)
  next
    case False
    then have "1 \<le> n div 10" by simp
    with 1 False have "\<not> HasPrefix (decimal (n div 10)) ''0''" by simp
    with False show ?thesis
      by (subst decimal.simps) (simp add: HasPrefix_append_nonempty decimal_nonempty)
  qed
qed

lemma digitByte_inj:
  assumes "a < 10" and "b < 10" and "digitByte a = digitByte b"
  shows "a = b"
proof -
  from assms(3) have "(of_char (digitByte a) :: nat) = of_char (digitByte b)"
    by (rule arg_cong)
  then have "48 + a = 48 + b"
    by (simp only: of_char_digitByte [OF assms(1)] of_char_digitByte [OF assms(2)])
  then show ?thesis by simp
qed

lemma decimal_length_ge2:
  assumes "10 \<le> n"
  shows "2 \<le> length (decimal n)"
proof -
  from assms have "decimal n = decimal (n div 10) @ [digitByte (n mod 10)]"
    by (subst decimal.simps) simp
  moreover have "1 \<le> length (decimal (n div 10))"
    using decimal_nonempty [of "n div 10"] by (cases "decimal (n div 10)") simp_all
  ultimately show ?thesis by simp
qed

lemma decimal_inj: "decimal m = decimal n \<Longrightarrow> m = n"
proof (induction m arbitrary: n rule: decimal.induct)
  case (1 m)
  show ?case
  proof (cases "m < 10")
    case True
    then have dm: "decimal m = [digitByte m]" by (subst decimal.simps) simp
    show ?thesis
    proof (cases "n < 10")
      case n: True
      then have "decimal n = [digitByte n]" by (subst decimal.simps) simp
      with dm "1.prems" True n show ?thesis by (auto dest: digitByte_inj)
    next
      case False
      then have "2 \<le> length (decimal n)" by (simp add: decimal_length_ge2)
      with dm "1.prems" show ?thesis by simp
    qed
  next
    case False
    then have dm: "decimal m = decimal (m div 10) @ [digitByte (m mod 10)]"
      by (subst decimal.simps) simp
    show ?thesis
    proof (cases "n < 10")
      case True
      then have "decimal n = [digitByte n]" by (subst decimal.simps) simp
      moreover from False have "2 \<le> length (decimal m)" by (simp add: decimal_length_ge2)
      ultimately show ?thesis using "1.prems" by simp
    next
      case n: False
      then have "decimal n = decimal (n div 10) @ [digitByte (n mod 10)]"
        by (subst decimal.simps) simp
      with dm "1.prems" have a: "decimal (m div 10) = decimal (n div 10)"
        and b: "digitByte (m mod 10) = digitByte (n mod 10)" by auto
      from False a have "m div 10 = n div 10" by (intro "1.IH") auto
      moreover from b have "m mod 10 = n mod 10" by (intro digitByte_inj) auto
      ultimately show ?thesis by (metis div_mult_mod_eq)
    qed
  qed
qed

subsection \<open>Version components\<close>

lemma versionPattern_component:
  "versionPattern i = CHR ''.'' # versionComponent i @ ''.''"
  by (simp add: versionPattern_def versionComponent_def)

lemma versionComponent_pos: "1 \<le> i \<Longrightarrow> versionComponent i = CHR ''v'' # decimal (nat i)"
  by (simp add: versionComponent_def Itoa_def)

lemma versionComponent_dotfree: "1 \<le> i \<Longrightarrow> CHR ''.'' \<notin> set (versionComponent i)"
  by (simp add: versionComponent_pos decimal_dotfree)

lemma versionComponent_is: "1 \<le> i \<Longrightarrow> isVersionComponent (versionComponent i)"
  by (simp add: versionComponent_pos isVersionComponent_def decimal_nonempty decimal_digits
      decimal_no_leading_zero)

lemma versionComponent_inj:
  "1 \<le> i \<Longrightarrow> 1 \<le> j \<Longrightarrow> versionComponent i = versionComponent j \<Longrightarrow> i = j"
  using decimal_inj [of "nat i" "nat j"] by (simp add: versionComponent_pos)

lemma versionPattern_123:
  "''.v1.'' = versionPattern 1" "''.v2.'' = versionPattern 2" "''.v3.'' = versionPattern 3"
  by code_simp+


subsection \<open>The loops\<close>

lemma versionLoop_eq:
  "versionLoop p mv vs results
     = results @ filter (\<lambda>x. x \<noteq> p) (map (replaceVersion p [1..mv]) vs)"
  by (induction vs arbitrary: results) (auto simp: Let_def)

lemma replaceVersion_none:
  "\<forall>i \<in> set is. \<not> Contains p (versionPattern i) \<Longrightarrow> replaceVersion p is v = p"
  by (induction "is") auto

lemma replaceVersion_unique:
  "\<forall>i \<in> set is. Contains p (versionPattern i) \<longleftrightarrow> i = N \<Longrightarrow> N \<in> set is
   \<Longrightarrow> replaceVersion p is v = ReplaceFirst p (versionPattern N) (versionPattern v)"
  by (induction "is") auto

lemma generate_retains: "p \<in> set (generateVersionedServicePaths p mv)"
  by (simp add: generateVersionedServicePaths_def)

lemma generate_no_match:
  assumes "\<forall>i. 1 \<le> i \<and> i \<le> mv \<longrightarrow> \<not> Contains p (versionPattern i)"
  shows "generateVersionedServicePaths p mv = [p]"
proof -
  from assms have "\<forall>i \<in> set [1..mv]. \<not> Contains p (versionPattern i)" by simp
  then have "\<And>v. replaceVersion p [1..mv] v = p" by (rule replaceVersion_none)
  then show ?thesis
    by (simp add: generateVersionedServicePaths_def versionLoop_eq)
qed

lemma generate_match:
  assumes "1 \<le> N" and "N \<le> 3" and "N \<le> mv"
    and "\<forall>i. 1 \<le> i \<longrightarrow> (Contains p (versionPattern i) \<longleftrightarrow> i = N)"
  shows "set (generateVersionedServicePaths p mv)
           = insert p ((\<lambda>v. ReplaceFirst p (versionPattern N) (versionPattern v)) ` {1..mv})"
proof -
  from assms(1,2) have "N = 1 \<or> N = 2 \<or> N = 3" by auto
  moreover from assms(1,4) have "Contains p (versionPattern N)" by simp
  ultimately have has: "Contains p ''.v1.'' \<or> Contains p ''.v2.'' \<or> Contains p ''.v3.''"
    by (auto simp: versionPattern_123)
  from assms(4) have "\<forall>i \<in> set [1..mv]. Contains p (versionPattern i) \<longleftrightarrow> i = N" by simp
  moreover from assms(1,3) have "N \<in> set [1..mv]" by simp
  ultimately have "\<And>v. replaceVersion p [1..mv] v
      = ReplaceFirst p (versionPattern N) (versionPattern v)"
    by (rule replaceVersion_unique)
  with has show ?thesis
    by (auto simp: generateVersionedServicePaths_def versionLoop_eq)
qed

subsection \<open>Paths as components\<close>

lemma Contains_version:
  assumes "\<forall>c \<in> set (h # I @ [l]). CHR ''.'' \<notin> set c" and "1 \<le> i"
  shows "Contains (Join (h # I @ [l]) ''.'') (versionPattern i) \<longleftrightarrow> versionComponent i \<in> set I"
  using Contains_Join [OF assms(1), of "versionComponent i"] versionComponent_dotfree [OF assms(2)]
  by (simp add: versionPattern_component)

lemma ReplaceFirst_version:
  assumes "\<forall>c \<in> set (h # I @ [l]). CHR ''.'' \<notin> set c" and "1 \<le> i"
  shows "ReplaceFirst (Join (h # I @ [l]) ''.'') (versionPattern i) (versionPattern v)
           = Join (h # replaceFirstElem I (versionComponent i) (versionComponent v) @ [l]) ''.''"
  using ReplaceFirst_Join [OF assms(1), of "versionComponent i" "versionComponent v"]
    versionComponent_dotfree [OF assms(2)]
  by (simp add: versionPattern_component)

lemma version_unique:
  assumes "length (filter isVersionComponent I) \<le> 1"
    and "versionComponent N \<in> set I" and "versionComponent i \<in> set I"
    and "1 \<le> N" and "1 \<le> i"
  shows "i = N"
proof -
  have "versionComponent i = versionComponent N"
    using assms by (intro filter_unique [of isVersionComponent I]) (simp_all add: versionComponent_is)
  with assms(4,5) show ?thesis by (intro versionComponent_inj)
qed

lemma Contains_version_iff:
  assumes dots: "\<forall>c \<in> set (h # I @ [l]). CHR ''.'' \<notin> set c"
    and cnt: "length (filter isVersionComponent I) \<le> 1"
    and N: "1 \<le> N" "versionComponent N \<in> set I"
    and i: "1 \<le> i"
  shows "Contains (Join (h # I @ [l]) ''.'') (versionPattern i) \<longleftrightarrow> i = N"
proof -
  have "Contains (Join (h # I @ [l]) ''.'') (versionPattern i) \<longleftrightarrow> versionComponent i \<in> set I"
    using dots i by (rule Contains_version)
  also have "\<dots> \<longleftrightarrow> i = N"
  proof
    assume "versionComponent i \<in> set I"
    with cnt N(2) show "i = N" using N(1) i by (rule version_unique)
  next
    assume "i = N"
    with N(2) show "versionComponent i \<in> set I" by simp
  qed
  finally show ?thesis .
qed


lemma generate_components:
  assumes dots: "\<forall>c \<in> set (h # I @ [l]). CHR ''.'' \<notin> set c"
    and cnt: "length (filter isVersionComponent I) \<le> 1"
    and N: "1 \<le> N" "N \<le> 3" "N \<le> mv" "versionComponent N \<in> set I"
  shows "set (generateVersionedServicePaths (Join (h # I @ [l]) ''.'') mv)
           = (\<lambda>v. Join (h # replaceFirstElem I (versionComponent N) (versionComponent v) @ [l]) ''.'')
               ` {1..mv}"
proof -
  let ?p = "Join (h # I @ [l]) ''.''"
  let ?R = "\<lambda>v. Join (h # replaceFirstElem I (versionComponent N) (versionComponent v) @ [l]) ''.''"
  have uniq: "\<forall>i. 1 \<le> i \<longrightarrow> (Contains ?p (versionPattern i) \<longleftrightarrow> i = N)"
    using Contains_version_iff [OF dots cnt N(1) N(4)] by blast
  have g: "set (generateVersionedServicePaths ?p mv)
             = insert ?p ((\<lambda>v. ReplaceFirst ?p (versionPattern N) (versionPattern v)) ` {1..mv})"
    using N(1-3) uniq by (rule generate_match)
  have r: "(\<lambda>v. ReplaceFirst ?p (versionPattern N) (versionPattern v)) = ?R"
  proof
    fix v
    show "ReplaceFirst ?p (versionPattern N) (versionPattern v) = ?R v"
      using dots N(1) by (rule ReplaceFirst_version)
  qed
  have "?R N = ?p" by (simp only: replaceFirstElem_same)
  moreover have "?R N \<in> ?R ` {1..mv}" using N(1,3) by (intro imageI) simp
  ultimately have "?p \<in> ?R ` {1..mv}" by (simp only:)
  then have "insert ?p (?R ` {1..mv}) = ?R ` {1..mv}" by (rule insert_absorb)
  then show ?thesis by (simp only: g r)
qed


lemma generate_unversioned:
  assumes "\<not> Contains q (versionPattern 1)" and "\<not> Contains q (versionPattern 2)"
    and "\<not> Contains q (versionPattern 3)"
  shows "generateVersionedServicePaths q mv = [q]"
  using assms by (simp add: generateVersionedServicePaths_def versionPattern_123)

lemma closure_versioned:
  assumes dots: "\<forall>c \<in> set (h # I @ [l]). CHR ''.'' \<notin> set c"
    and cnt: "length (filter isVersionComponent I) \<le> 1"
    and N: "1 \<le> N" "N \<le> 3" "N \<le> mv" "versionComponent N \<in> set I"
    and q: "q \<in> set (generateVersionedServicePaths (Join (h # I @ [l]) ''.'') mv)"
  shows "set (generateVersionedServicePaths q mv)
           \<subseteq> set (generateVersionedServicePaths (Join (h # I @ [l]) ''.'') mv)"
proof -
  let ?R = "\<lambda>v. Join (h # replaceFirstElem I (versionComponent N) (versionComponent v) @ [l]) ''.''"
  have gp: "set (generateVersionedServicePaths (Join (h # I @ [l]) ''.'') mv) = ?R ` {1..mv}"
    using dots cnt N by (rule generate_components)
  from q obtain v where vm: "v \<in> {1..mv}" and qv: "q = ?R v"
    unfolding gp by (rule imageE)
  from vm have v: "1 \<le> v" "v \<le> mv" by simp_all
  define I' where "I' = replaceFirstElem I (versionComponent N) (versionComponent v)"
  have qI: "q = Join (h # I' @ [l]) ''.''" by (simp only: qv I'_def)
  have sub: "set I' \<subseteq> insert (versionComponent v) (set I)"
    unfolding I'_def by (rule replaceFirstElem_set)
  have dots': "\<forall>c \<in> set (h # I' @ [l]). CHR ''.'' \<notin> set c"
  proof
    fix c assume "c \<in> set (h # I' @ [l])"
    then have "c = versionComponent v \<or> c \<in> set (h # I @ [l])" using sub by auto
    then show "CHR ''.'' \<notin> set c"
      using dots versionComponent_dotfree [OF v(1)] by blast
  qed
  have cnt': "length (filter isVersionComponent I') \<le> 1"
    unfolding I'_def
    using cnt replaceFirstElem_filter [of isVersionComponent "versionComponent N" "versionComponent v" I]
      versionComponent_is [OF N(1)] versionComponent_is [OF v(1)]
    by simp
  have mem': "versionComponent v \<in> set I'"
    unfolding I'_def using N(4) by (rule replaceFirstElem_member)
  show ?thesis
  proof (cases "v \<le> 3")
    case True
    have gq: "set (generateVersionedServicePaths (Join (h # I' @ [l]) ''.'') mv)
                = (\<lambda>w. Join (h # replaceFirstElem I' (versionComponent v) (versionComponent w) @ [l]) ''.'')
                    ` {1..mv}"
      using dots' cnt' v(1) True v(2) mem' by (rule generate_components)
    have pre: "versionComponent v \<notin> set I \<or> versionComponent v = versionComponent N"
    proof (cases "versionComponent v \<in> set I")
      case False
      then show ?thesis by simp
    next
      case True
      with cnt N(4) have "v = N" using N(1) v(1) by (rule version_unique)
      then show ?thesis by simp
    qed
    have twice: "(\<lambda>w. Join (h # replaceFirstElem I' (versionComponent v) (versionComponent w) @ [l]) ''.'')
                   = ?R"
    proof
      fix w
      have "replaceFirstElem I' (versionComponent v) (versionComponent w)
              = replaceFirstElem I (versionComponent N) (versionComponent w)"
        unfolding I'_def using pre by (rule replaceFirstElem_twice)
      then show "Join (h # replaceFirstElem I' (versionComponent v) (versionComponent w) @ [l]) ''.''
                   = ?R w"
        by (simp only:)
    qed
    have "set (generateVersionedServicePaths q mv) = ?R ` {1..mv}"
      by (simp only: qI gq twice)
    then show ?thesis by (simp only: gp)
  next
    case False
    have no: "\<not> Contains q (versionPattern i)" if i: "1 \<le> i" "i \<le> 3" for i
    proof -
      have "Contains (Join (h # I' @ [l]) ''.'') (versionPattern i) \<longleftrightarrow> i = v"
        using dots' cnt' v(1) mem' i(1) by (rule Contains_version_iff)
      with False i(2) show ?thesis by (simp add: qI)
    qed
    have "generateVersionedServicePaths q mv = [q]"
      by (rule generate_unversioned) (rule no, simp, simp)+
    with q show ?thesis by simp
  qed
qed

lemma closure_other:
  assumes dots: "\<forall>c \<in> set (h # I @ [l]). CHR ''.'' \<notin> set c"
    and cnt: "length (filter isVersionComponent I) \<le> 1"
    and none: "\<not> (\<exists>N. 1 \<le> N \<and> N \<le> 3 \<and> N \<le> mv \<and> versionComponent N \<in> set I)"
  shows "generateVersionedServicePaths (Join (h # I @ [l]) ''.'') mv = [Join (h # I @ [l]) ''.'']"
proof -
  let ?p = "Join (h # I @ [l]) ''.''"
  have c: "Contains ?p (versionPattern i) \<longleftrightarrow> versionComponent i \<in> set I" if "1 \<le> i" for i
    using dots that by (rule Contains_version)
  show ?thesis
  proof (cases "\<exists>N. 1 \<le> N \<and> N \<le> 3 \<and> versionComponent N \<in> set I")
    case False
    then have "\<not> Contains ?p (versionPattern 1)" "\<not> Contains ?p (versionPattern 2)"
      "\<not> Contains ?p (versionPattern 3)"
      using c [of 1] c [of 2] c [of 3] by auto
    then show ?thesis by (rule generate_unversioned)
  next
    case True
    then obtain N where N: "1 \<le> N" "N \<le> 3" "versionComponent N \<in> set I" by blast
    have big: "mv < N"
    proof (rule ccontr)
      assume "\<not> mv < N"
      then have "N \<le> mv" by simp
      with N have "\<exists>N. 1 \<le> N \<and> N \<le> 3 \<and> N \<le> mv \<and> versionComponent N \<in> set I"
        by blast
      with none show False by simp
    qed
    show ?thesis
    proof (rule generate_no_match, intro allI impI)
      fix i assume i: "1 \<le> i \<and> i \<le> mv"
      show "\<not> Contains ?p (versionPattern i)"
      proof
        assume "Contains ?p (versionPattern i)"
        with i have "versionComponent i \<in> set I" using c [of i] by simp
        with cnt N(3) have "i = N" using N(1) i by (intro version_unique) simp_all
        with i big show False by simp
      qed
    qed
  qed
qed

lemma closure_components:
  assumes dots: "\<forall>c \<in> set (h # I @ [l]). CHR ''.'' \<notin> set c"
    and cnt: "length (filter isVersionComponent I) \<le> 1"
    and q: "q \<in> set (generateVersionedServicePaths (Join (h # I @ [l]) ''.'') mv)"
  shows "set (generateVersionedServicePaths q mv)
           \<subseteq> set (generateVersionedServicePaths (Join (h # I @ [l]) ''.'') mv)"
proof (cases "\<exists>N. 1 \<le> N \<and> N \<le> 3 \<and> N \<le> mv \<and> versionComponent N \<in> set I")
  case True
  then obtain N where "1 \<le> N" "N \<le> 3" "N \<le> mv" "versionComponent N \<in> set I" by blast
  with dots cnt show ?thesis using q by (rule closure_versioned)
next
  case False
  with dots cnt
  have g: "generateVersionedServicePaths (Join (h # I @ [l]) ''.'') mv = [Join (h # I @ [l]) ''.'']"
    by (rule closure_other)
  with q have "q = Join (h # I @ [l]) ''.''" by simp
  then show ?thesis by simp
qed

lemma components_decompose:
  assumes "2 \<le> length cs"
  shows "\<exists>h l. cs = h # interior cs @ [l]"
proof (cases cs)
  case Nil
  with assms show ?thesis by simp
next
  case (Cons h t)
  with assms have "t \<noteq> []" by auto
  then have "butlast t @ [last t] = t" by (rule append_butlast_last_id)
  then have "h # t = h # butlast t @ [last t]" by simp
  with Cons show ?thesis unfolding interior_def by (metis list.sel(3))
qed

lemma generate_closed:
  assumes "versionSegments p \<le> 1" and "q \<in> set (generateVersionedServicePaths p mv)"
  shows "set (generateVersionedServicePaths q mv) \<subseteq> set (generateVersionedServicePaths p mv)"
proof -
  define cs where "cs = Split p CHR ''.''"
  have p: "p = Join cs ''.''" by (simp add: cs_def Join_Split)
  have free: "\<forall>c \<in> set cs. CHR ''.'' \<notin> set c" by (auto simp: cs_def dest: Split_sepfree)
  show ?thesis
  proof (cases "2 \<le> length cs")
    case True
    define I where "I = interior cs"
    from True obtain h l where d: "cs = h # I @ [l]"
      unfolding I_def using components_decompose by blast
    have dots: "\<forall>c \<in> set (h # I @ [l]). CHR ''.'' \<notin> set c"
      using free unfolding d .
    from assms(1) have cnt: "length (filter isVersionComponent I) \<le> 1"
      by (simp add: versionSegments_def cs_def I_def)
    from assms(2) have "q \<in> set (generateVersionedServicePaths (Join (h # I @ [l]) ''.'') mv)"
      unfolding p d .
    from closure_components [OF dots cnt this] show ?thesis unfolding p d .
  next
    case False
    moreover have "cs \<noteq> []" by (simp add: cs_def Split_nonempty)
    ultimately obtain c where c: "cs = [c]"
      by (cases cs) (auto simp: Suc_le_eq)
    with p free have "CHR ''.'' \<notin> set p" by simp
    then have "\<forall>i. \<not> Contains p (versionPattern i)"
      by (simp add: versionPattern_component Contains_sepfree)
    then have "generateVersionedServicePaths p mv = [p]" by (intro generate_no_match) simp
    with assms(2) show ?thesis by simp
  qed
qed

lemma set_fuzzServiceVersions:
  "set (fuzzServiceVersions ps mv) = (\<Union>p \<in> set ps. set (generateVersionedServicePaths p mv))"
  by (induction ps) auto

text \<open>
  C7 (as the code has it). When every path of the list has at most one version segment,
  fuzzing the output of \<open>fuzzServiceVersions\<close> again gives the same set of paths as
  fuzzing once, for every \<open>maxVersion\<close>.
\<close>

theorem fuzz_idempotent_single_segment:
  assumes "\<forall>p \<in> set servicePaths. versionSegments p \<le> 1"
  shows "set (fuzzServiceVersions (fuzzServiceVersions servicePaths maxVersion) maxVersion)
           = set (fuzzServiceVersions servicePaths maxVersion)"
proof (intro equalityI subsetI)
  fix x
  assume "x \<in> set (fuzzServiceVersions (fuzzServiceVersions servicePaths maxVersion) maxVersion)"
  then obtain q where q: "q \<in> set (fuzzServiceVersions servicePaths maxVersion)"
    and x: "x \<in> set (generateVersionedServicePaths q maxVersion)"
    unfolding set_fuzzServiceVersions [of "fuzzServiceVersions servicePaths maxVersion"] by blast
  from q obtain p where p: "p \<in> set servicePaths"
    and qp: "q \<in> set (generateVersionedServicePaths p maxVersion)"
    unfolding set_fuzzServiceVersions by blast
  from assms p have "versionSegments p \<le> 1" by blast
  then have "set (generateVersionedServicePaths q maxVersion)
               \<subseteq> set (generateVersionedServicePaths p maxVersion)"
    using qp by (rule generate_closed)
  with x have "x \<in> set (generateVersionedServicePaths p maxVersion)" by blast
  with p show "x \<in> set (fuzzServiceVersions servicePaths maxVersion)"
    unfolding set_fuzzServiceVersions by blast
next
  fix x
  assume "x \<in> set (fuzzServiceVersions servicePaths maxVersion)"
  moreover have "x \<in> set (generateVersionedServicePaths x maxVersion)"
    by (rule generate_retains)
  ultimately
  show "x \<in> set (fuzzServiceVersions (fuzzServiceVersions servicePaths maxVersion) maxVersion)"
    unfolding set_fuzzServiceVersions [of "fuzzServiceVersions servicePaths maxVersion"] by blast
qed

theorem fuzz_idempotent_single_segment_witness:
  "set (fuzzServiceVersions
          (fuzzServiceVersions [''grpc.health.v1.Health'', ''api.v2.video.VideoService'', ''echo.EchoService''] 3) 3)
     = set (fuzzServiceVersions [''grpc.health.v1.Health'', ''api.v2.video.VideoService'', ''echo.EchoService''] 3)
   \<and> ''grpc.health.v3.Health'' \<in> set (fuzzServiceVersions [''grpc.health.v1.Health'', ''api.v2.video.VideoService'', ''echo.EchoService''] 3)"
proof -
  have h: "\<forall>p \<in> set [''grpc.health.v1.Health'', ''api.v2.video.VideoService'', ''echo.EchoService''].
             versionSegments p \<le> 1"
    by code_simp
  have m: "''grpc.health.v3.Health'' \<in> set (fuzzServiceVersions [''grpc.health.v1.Health'', ''api.v2.video.VideoService'', ''echo.EchoService''] 3)"
    by code_simp
  from fuzz_idempotent_single_segment [OF h, of 3] m show ?thesis by blast
qed

text \<open>
  The claim C7 as written (every list of paths, paths with several version segments
  included) fails on a path with the segments \<open>.v1.\<close> and \<open>.v2.\<close>: the second round
  replaces the second segment of \<open>a.v3.b.v2.C\<close>.
\<close>

theorem fuzz_idempotent_counterexample:
  "set (fuzzServiceVersions (fuzzServiceVersions [''a.v1.b.v2.C''] 3) 3)
     \<noteq> set (fuzzServiceVersions [''a.v1.b.v2.C''] 3)"
proof -
  have "''a.v3.b.v1.C'' \<in> set (fuzzServiceVersions (fuzzServiceVersions [''a.v1.b.v2.C''] 3) 3)
        \<and> ''a.v3.b.v1.C'' \<notin> set (fuzzServiceVersions [''a.v1.b.v2.C''] 3)"
    by code_simp
  then show ?thesis by blast
qed

end
